theory Spec2Isabelle
  imports Main "HOL-Library.Word" "HOL-Library.AList"
begin

section \<open>tinyevents: the Dispatcher and its Token\<close>

text \<open>
  The embedding follows \<^verbatim>\<open>include/tinyevents/tinyevents.hpp\<close>.

  A message type \<^verbatim>\<open>T\<close> is identified by its \<^verbatim>\<open>std::type_index\<close>, here a
  natural number; the payload of a message is a natural number as well. A handle is
  a \<^verbatim>\<open>std::uint64_t\<close>, so \<^verbatim>\<open>nextListenerId++\<close> wraps around at \<open>2^64\<close>. A priority is
  a C++ \<^verbatim>\<open>int\<close> that is only ever compared, never computed with, so it is an
  integer here.
\<close>

type_synonym type_index = nat
type_synonym msg = nat
type_synonym handle_t = "64 word"

subsection \<open>User code\<close>

text \<open>
  Listeners are user code. A listener can do anything a client of the public interface
  can do, so user code is a tree of calls of the public operations: each node is one
  call, and where the operation returns a value the rest of the code depends on it.
  \<open>Emit\<close> is a side effect of the user's own (recording a value), \<open>Recall\<close>
  reads back everything recorded so far, which stands for the user's own mutable state.
  A listener is a function from the message to such a tree. The member-function
  overloads of \<^verbatim>\<open>listen\<close> and \<^verbatim>\<open>listenOnce\<close> wrap \<^verbatim>\<open>std::invoke\<close> in a
  closure and then do the same as the overloads taking a function, so they are the
  same constructors here.

  User code may throw: \<open>Throw\<close> throws an exception, and \<open>Try body handler k\<close> is
  \<^verbatim>\<open>try { body } catch (...) { handler }\<close> followed by \<open>k\<close>. The Dispatcher has no
  handler of its own, so an exception thrown by a listener leaves \<^verbatim>\<open>dispatch\<close> and
  \<^verbatim>\<open>process\<close> at once, up to the user code that catches it. An empty
  \<^verbatim>\<open>std::function\<close> throws when it is called: it is the listener \<open>\<lambda>m. Throw\<close>.
\<close>

datatype prog =
    Return
  | Emit nat prog
  | Recall "nat list \<Rightarrow> prog"
  | Listen type_index "msg \<Rightarrow> prog" int "handle_t \<Rightarrow> prog"
  | ListenOnce type_index "msg \<Rightarrow> prog" int "handle_t \<Rightarrow> prog"
  | Dispatch type_index msg prog
  | Queue type_index msg prog
  | Process prog
  | Remove handle_t prog
  | HasListener handle_t "bool \<Rightarrow> prog"
  | Throw
  | Try prog prog prog

text \<open>
  The callback stored in an entry is either the user's listener as it is (\<^verbatim>\<open>listen\<close>),
  or the closure built by \<^verbatim>\<open>listenOnce\<close>, which captures \<^verbatim>\<open>listenerId\<close> and the
  user's listener.
\<close>

datatype callback =
    Plain "msg \<Rightarrow> prog"
  | OnceWrapper handle_t "msg \<Rightarrow> prog"

subsection \<open>The data\<close>

record ListenerEntry =
  handle :: handle_t
  priority :: int
  callback :: callback

text \<open>
  \<^verbatim>\<open>listenersByType\<close> is a \<^verbatim>\<open>std::map\<close> from type index to a vector of entries: an
  association list, read with \<open>map_of\<close> and written with \<open>AList.update\<close>.
  \<^verbatim>\<open>queuedDispatches\<close> is a list of closures \<^verbatim>\<open>[msg](Dispatcher &d) { d.dispatch(msg); }\<close>;
  such a closure is determined by the type and the value of the message it captured.
\<close>

record Dispatcher =
  listenersByType :: "(type_index \<times> ListenerEntry list) list"
  queuedDispatches :: "(type_index \<times> msg) list"
  listenersScheduledForRemoval :: "handle_t set"
  nextListenerId :: handle_t

definition new_Dispatcher :: Dispatcher where
  "new_Dispatcher =
     \<lparr>listenersByType = [], queuedDispatches = [],
      listenersScheduledForRemoval = {}, nextListenerId = 0\<rparr>"

subsection \<open>Operations that run no listener\<close>

text \<open>
  \<^verbatim>\<open>addListener\<close>: \<^verbatim>\<open>listenersByType[type]\<close> creates an empty bucket when there is
  none; \<^verbatim>\<open>std::find_if\<close> returns the first entry with \<^verbatim>\<open>e.priority < priority\<close> and
  the new entry is inserted in front of it (at the end when there is none).
\<close>

definition addListener ::
  "Dispatcher \<Rightarrow> type_index \<Rightarrow> callback \<Rightarrow> int \<Rightarrow> handle_t \<times> Dispatcher" where
  "addListener d t cb prio =
     (let listeners = (case map_of (listenersByType d) t of None \<Rightarrow> [] | Some v \<Rightarrow> v);
          listenerHandle = nextListenerId d;
          entry = \<lparr>handle = listenerHandle, priority = prio, callback = cb\<rparr>;
          front = takeWhile (\<lambda>e. \<not> priority e < prio) listeners;
          back = dropWhile (\<lambda>e. \<not> priority e < prio) listeners
      in (listenerHandle,
          d\<lparr>listenersByType := AList.update t (front @ entry # back) (listenersByType d),
            nextListenerId := nextListenerId d + 1\<rparr>))"

definition listen ::
  "Dispatcher \<Rightarrow> type_index \<Rightarrow> (msg \<Rightarrow> prog) \<Rightarrow> int \<Rightarrow> handle_t \<times> Dispatcher" where
  "listen d t listener prio = addListener d t (Plain listener) prio"

definition listenOnce ::
  "Dispatcher \<Rightarrow> type_index \<Rightarrow> (msg \<Rightarrow> prog) \<Rightarrow> int \<Rightarrow> handle_t \<times> Dispatcher" where
  "listenOnce d t listener prio =
     (let listenerId = nextListenerId d
      in addListener d t (OnceWrapper listenerId listener) prio)"

definition queue :: "Dispatcher \<Rightarrow> type_index \<Rightarrow> msg \<Rightarrow> Dispatcher" where
  "queue d t m = d\<lparr>queuedDispatches := queuedDispatches d @ [(t, m)]\<rparr>"

definition remove :: "Dispatcher \<Rightarrow> handle_t \<Rightarrow> Dispatcher" where
  "remove d h =
     (if h \<in> listenersScheduledForRemoval d then d
      else d\<lparr>listenersByType :=
               map (\<lambda>(t, vec). (t, filter (\<lambda>entry. handle entry \<noteq> h) vec))
                   (listenersByType d)\<rparr>)"

definition hasListener :: "Dispatcher \<Rightarrow> handle_t \<Rightarrow> bool" where
  "hasListener d h =
     (if h \<in> listenersScheduledForRemoval d then False
      else list_ex (\<lambda>(t, vec). list_ex (\<lambda>entry. handle entry = h) vec)
                   (listenersByType d))"

subsection \<open>Operations that run listeners\<close>

text \<open>
  What happens is recorded in a history next to the Dispatcher. The history is not
  part of the program; no operation reads it, except that \<open>Recall\<close> hands the user
  code the values the user code itself recorded.
  \<^item> \<open>Issued h\<close>: \<^verbatim>\<open>addListener\<close> returned the handle \<open>h\<close>;
  \<^item> \<open>Called h m\<close>: \<^verbatim>\<open>dispatch\<close> called \<^verbatim>\<open>entry.callback(&msg)\<close> of the entry with handle \<open>h\<close>;
  \<^item> \<open>Enqueued t m\<close>: \<^verbatim>\<open>queue\<close> appended a message;
  \<^item> \<open>Delivered t m\<close>: \<^verbatim>\<open>process\<close> called the queued closure of this message;
  \<^item> \<open>Removed h\<close>: \<^verbatim>\<open>remove\<close> was called for \<open>h\<close> while \<open>h\<close> was not in the
    Pending-Removal Set, so that it erased the entries with this handle;
  \<^item> \<open>Raised\<close>: user code threw an exception;
  \<^item> \<open>Emitted x\<close>: user code recorded \<open>x\<close>.
\<close>

datatype event =
    Issued handle_t
  | Called handle_t msg
  | Enqueued type_index msg
  | Delivered type_index msg
  | Removed handle_t
  | Raised
  | Emitted nat

record world =
  disp :: Dispatcher
  trace :: "event list"

definition new_world :: world where
  "new_world = \<lparr>disp = new_Dispatcher, trace = []\<rparr>"

definition log_event :: "event \<Rightarrow> world \<Rightarrow> world" where
  "log_event ev w = w\<lparr>trace := trace w @ [ev]\<rparr>"

definition pending :: "world \<Rightarrow> handle_t set" where
  "pending w = listenersScheduledForRemoval (disp w)"

text \<open>A call of \<^verbatim>\<open>remove\<close>, recorded when it takes effect.\<close>

definition remove_logged :: "handle_t \<Rightarrow> world \<Rightarrow> world" where
  "remove_logged h w =
     (if h \<in> listenersScheduledForRemoval (disp w) then w\<lparr>disp := remove (disp w) h\<rparr>
      else log_event (Removed h) (w\<lparr>disp := remove (disp w) h\<rparr>))"

fun emitted :: "event list \<Rightarrow> nat list" where
  "emitted [] = []"
| "emitted (Emitted x # evs) = x # emitted evs"
| "emitted (_ # evs) = emitted evs"

text \<open>
  A listener may call \<^verbatim>\<open>dispatch\<close> again and so on without end, and \<^verbatim>\<open>process\<close>
  may be fed by the listeners it runs for ever, so the operations that run listeners
  take fuel: \<open>OutOfFuel\<close> says that the fuel given was not enough. Calling
  \<^verbatim>\<open>process\<close> from a listener that runs under \<^verbatim>\<open>process\<close> clears the
  \<^verbatim>\<open>std::list\<close> the outer call is iterating over and destroys the closure that is
  running: undefined behaviour in C++, \<open>UndefinedBehaviour\<close> here. The flag
  \<open>ip\<close> says whether the code runs under \<^verbatim>\<open>process\<close>. \<open>Ok\<close> is the normal
  return, \<open>Threw\<close> the exit by an exception, with the state as it was when the
  exception was thrown: nothing is undone on the way out.
\<close>

datatype 'a result =
    is_Ok: Ok (the_Ok: 'a)
  | is_Threw: Threw (the_Threw: 'a)
  | OutOfFuel
  | UndefinedBehaviour

text \<open>The state in which an operation ended, by a return or by an exception.\<close>

fun ended :: "'a result \<Rightarrow> 'a option" where
  "ended (Ok x) = Some x"
| "ended (Threw x) = Some x"
| "ended OutOfFuel = None"
| "ended UndefinedBehaviour = None"

text \<open>
  \<^item> \<open>run\<close> executes user code;
  \<^item> \<open>invoke\<close> is the call of a stored callback: the user's listener, or the closure of
    \<^verbatim>\<open>listenOnce\<close> (insert the id, call the listener, erase the id, \<^verbatim>\<open>remove\<close>);
    when the listener throws, the closure is left before it erases the id;
  \<^item> \<open>dispatch_loop\<close> is the loop of \<^verbatim>\<open>dispatch\<close> over \<^verbatim>\<open>listenersCopy\<close>; it also
    returns the entries whose callback this very loop called, in the order of the calls;
  \<^item> \<open>dispatch\<close> looks the bucket up, copies it and runs the loop;
  \<^item> \<open>process_loop\<close> is the loop of \<^verbatim>\<open>process\<close>: the iterator is the index \<open>i\<close> into
    the queue, which only grows while the loop runs, and the loop ends when the index
    reaches the end of the queue as it is then;
  \<^item> \<open>process\<close> runs the loop from the front and clears the queue; an exception
    leaves it before it clears the queue.
\<close>

function (sequential) run :: "nat \<Rightarrow> bool \<Rightarrow> prog \<Rightarrow> world \<Rightarrow> world result"
  and invoke :: "nat \<Rightarrow> bool \<Rightarrow> callback \<Rightarrow> msg \<Rightarrow> world \<Rightarrow> world result"
  and dispatch_loop ::
    "nat \<Rightarrow> bool \<Rightarrow> ListenerEntry list \<Rightarrow> msg \<Rightarrow> world \<Rightarrow> (world \<times> ListenerEntry list) result"
  and dispatch ::
    "nat \<Rightarrow> bool \<Rightarrow> type_index \<Rightarrow> msg \<Rightarrow> world \<Rightarrow> (world \<times> ListenerEntry list) result"
  and process_loop :: "nat \<Rightarrow> nat \<Rightarrow> world \<Rightarrow> world result"
  and process :: "nat \<Rightarrow> world \<Rightarrow> world result"
where
  "run 0 ip p w = OutOfFuel"
| "run (Suc n) ip Return w = Ok w"
| "run (Suc n) ip (Emit x k) w = run n ip k (log_event (Emitted x) w)"
| "run (Suc n) ip (Recall k) w = run n ip (k (emitted (trace w))) w"
| "run (Suc n) ip (Listen t f prio k) w =
     (case listen (disp w) t f prio of
        (h, d) \<Rightarrow> run n ip (k h) (log_event (Issued h) (w\<lparr>disp := d\<rparr>)))"
| "run (Suc n) ip (ListenOnce t f prio k) w =
     (case listenOnce (disp w) t f prio of
        (h, d) \<Rightarrow> run n ip (k h) (log_event (Issued h) (w\<lparr>disp := d\<rparr>)))"
| "run (Suc n) ip (Dispatch t m k) w =
     (case dispatch n ip t m w of
        Ok (w', called) \<Rightarrow> run n ip k w'
      | Threw (w', called) \<Rightarrow> Threw w'
      | OutOfFuel \<Rightarrow> OutOfFuel
      | UndefinedBehaviour \<Rightarrow> UndefinedBehaviour)"
| "run (Suc n) ip (Queue t m k) w =
     run n ip k (log_event (Enqueued t m) (w\<lparr>disp := queue (disp w) t m\<rparr>))"
| "run (Suc n) ip (Process k) w =
     (if ip then UndefinedBehaviour
      else (case process n w of
              Ok w' \<Rightarrow> run n ip k w'
            | Threw w' \<Rightarrow> Threw w'
            | OutOfFuel \<Rightarrow> OutOfFuel
            | UndefinedBehaviour \<Rightarrow> UndefinedBehaviour))"
| "run (Suc n) ip (Remove h k) w = run n ip k (remove_logged h w)"
| "run (Suc n) ip (HasListener h k) w = run n ip (k (hasListener (disp w) h)) w"
| "run (Suc n) ip Throw w = Threw (log_event Raised w)"
| "run (Suc n) ip (Try body handler k) w =
     (case run n ip body w of
        Ok w' \<Rightarrow> run n ip k w'
      | Threw w' \<Rightarrow>
          (case run n ip handler w' of
             Ok w'' \<Rightarrow> run n ip k w''
           | Threw w'' \<Rightarrow> Threw w''
           | OutOfFuel \<Rightarrow> OutOfFuel
           | UndefinedBehaviour \<Rightarrow> UndefinedBehaviour)
      | OutOfFuel \<Rightarrow> OutOfFuel
      | UndefinedBehaviour \<Rightarrow> UndefinedBehaviour)"
| "invoke n ip (Plain listener) m w = run n ip (listener m) w"
| "invoke n ip (OnceWrapper listenerId listener) m w =
     (case run n ip (listener m)
             (w\<lparr>disp := (disp w)\<lparr>listenersScheduledForRemoval :=
                   insert listenerId (listenersScheduledForRemoval (disp w))\<rparr>\<rparr>) of
        Ok w' \<Rightarrow>
          Ok (remove_logged listenerId
                (w'\<lparr>disp := (disp w')\<lparr>listenersScheduledForRemoval :=
                   listenersScheduledForRemoval (disp w') - {listenerId}\<rparr>\<rparr>))
      | Threw w' \<Rightarrow> Threw w'
      | OutOfFuel \<Rightarrow> OutOfFuel
      | UndefinedBehaviour \<Rightarrow> UndefinedBehaviour)"
| "dispatch_loop n ip [] m w = Ok (w, [])"
| "dispatch_loop n ip (entry # rest) m w =
     (if handle entry \<notin> listenersScheduledForRemoval (disp w) then
        (case invoke n ip (callback entry) m (log_event (Called (handle entry) m) w) of
           Ok w' \<Rightarrow>
             (case dispatch_loop n ip rest m w' of
                Ok (w'', called) \<Rightarrow> Ok (w'', entry # called)
              | Threw (w'', called) \<Rightarrow> Threw (w'', entry # called)
              | OutOfFuel \<Rightarrow> OutOfFuel
              | UndefinedBehaviour \<Rightarrow> UndefinedBehaviour)
         | Threw w' \<Rightarrow> Threw (w', [entry])
         | OutOfFuel \<Rightarrow> OutOfFuel
         | UndefinedBehaviour \<Rightarrow> UndefinedBehaviour)
      else dispatch_loop n ip rest m w)"
| "dispatch n ip t m w =
     (case map_of (listenersByType (disp w)) t of
        None \<Rightarrow> Ok (w, [])
      | Some listenersCopy \<Rightarrow> dispatch_loop n ip listenersCopy m w)"
| "process_loop 0 i w = OutOfFuel"
| "process_loop (Suc n) i w =
     (if i < length (queuedDispatches (disp w)) then
        (case queuedDispatches (disp w) ! i of
           (t, m) \<Rightarrow>
             (case dispatch n True t m (log_event (Delivered t m) w) of
                Ok (w', called) \<Rightarrow> process_loop n (Suc i) w'
              | Threw (w', called) \<Rightarrow> Threw w'
              | OutOfFuel \<Rightarrow> OutOfFuel
              | UndefinedBehaviour \<Rightarrow> UndefinedBehaviour))
      else Ok w)"
| "process n w =
     (case process_loop n 0 w of
        Ok w' \<Rightarrow> Ok (w'\<lparr>disp := (disp w')\<lparr>queuedDispatches := []\<rparr>\<rparr>)
      | Threw w' \<Rightarrow> Threw w'
      | OutOfFuel \<Rightarrow> OutOfFuel
      | UndefinedBehaviour \<Rightarrow> UndefinedBehaviour)"
  by pat_completeness auto

termination
  by (relation "measures [
        (\<lambda>x. case x of
            Inl (Inl (n, ip, p, w)) \<Rightarrow> n
          | Inl (Inr (Inl (n, ip, cb, m, w))) \<Rightarrow> n
          | Inl (Inr (Inr (n, ip, es, m, w))) \<Rightarrow> n
          | Inr (Inl (n, ip, t, m, w)) \<Rightarrow> n
          | Inr (Inr (Inl (n, i, w))) \<Rightarrow> n
          | Inr (Inr (Inr (n, w))) \<Rightarrow> n),
        (\<lambda>x. case x of
            Inl (Inl (n, ip, p, w)) \<Rightarrow> 0
          | Inl (Inr (Inl (n, ip, cb, m, w))) \<Rightarrow> 1
          | Inl (Inr (Inr (n, ip, es, m, w))) \<Rightarrow> 2 + length es
          | Inr (Inl (n, ip, t, m, w)) \<Rightarrow>
              3 + (case map_of (listenersByType (disp w)) t of None \<Rightarrow> 0 | Some b \<Rightarrow> length b)
          | Inr (Inr (Inl (n, i, w))) \<Rightarrow> 0
          | Inr (Inr (Inr (n, w))) \<Rightarrow> 1)]") auto


subsection \<open>Token\<close>

text \<open>
  A Token holds a \<^verbatim>\<open>std::reference_wrapper<Dispatcher>\<close>: a reference is a natural
  number and the Dispatchers live in a store from references to Dispatchers. \<^verbatim>\<open>_handle\<close>
  is the field \<open>handle'\<close>. The operations that call \<^verbatim>\<open>Dispatcher::remove\<close> take
  the store and return it updated; \<^verbatim>\<open>remove\<close> runs no listener.
\<close>

type_synonym store = "nat \<Rightarrow> Dispatcher"

record Token =
  dispatcher :: nat
  handle' :: handle_t
  holdsResource :: bool

definition Token_new :: "nat \<Rightarrow> handle_t \<Rightarrow> Token" where
  "Token_new r h = \<lparr>dispatcher = r, handle' = h, holdsResource = True\<rparr>"

definition Token_destroy :: "Token \<Rightarrow> store \<Rightarrow> store" where
  "Token_destroy tok s =
     (if holdsResource tok
      then s(dispatcher tok := remove (s (dispatcher tok)) (handle' tok))
      else s)"

text \<open>The move constructor returns the new Token and what is left of the other one.\<close>

definition Token_move :: "Token \<Rightarrow> Token \<times> Token" where
  "Token_move other =
     (\<lparr>dispatcher = dispatcher other, handle' = handle' other,
       holdsResource = holdsResource other\<rparr>,
      other\<lparr>holdsResource := False\<rparr>)"

text \<open>
  Move assignment between two different objects (\<^verbatim>\<open>this != &other\<close>): what \<^verbatim>\<open>this\<close>
  held is released first.
\<close>

definition Token_move_assign :: "Token \<Rightarrow> Token \<Rightarrow> store \<Rightarrow> Token \<times> Token \<times> store" where
  "Token_move_assign this other s =
     (\<lparr>dispatcher = dispatcher other, handle' = handle' other,
       holdsResource = holdsResource other\<rparr>,
      other\<lparr>holdsResource := False\<rparr>,
      (if holdsResource this
       then s(dispatcher this := remove (s (dispatcher this)) (handle' this))
       else s))"

definition Token_handle :: "Token \<Rightarrow> handle_t" where
  "Token_handle tok = handle' tok"

definition Token_remove :: "Token \<Rightarrow> store \<Rightarrow> Token \<times> store" where
  "Token_remove tok s =
     (tok\<lparr>holdsResource := False\<rparr>,
      s(dispatcher tok := remove (s (dispatcher tok)) (handle' tok)))"

subsection \<open>Notions used in the statements\<close>

text \<open>Some bucket holds an entry with the handle \<open>h\<close>.\<close>

definition registered :: "Dispatcher \<Rightarrow> handle_t \<Rightarrow> bool" where
  "registered d h =
     list_ex (\<lambda>(t, vec). list_ex (\<lambda>entry. handle entry = h) vec) (listenersByType d)"

text \<open>All entries of all buckets.\<close>

definition entries :: "Dispatcher \<Rightarrow> ListenerEntry list" where
  "entries d = concat (map snd (listenersByType d))"

text \<open>
  The closure of \<^verbatim>\<open>listenOnce\<close> captures \<^verbatim>\<open>nextListenerId\<close> as it is before
  \<^verbatim>\<open>addListener\<close> increments it, which is the handle its entry gets. \<open>once_ok\<close> says
  so of one entry, \<open>wf_registry\<close> of all entries of the registry.
\<close>

definition once_ok :: "ListenerEntry \<Rightarrow> bool" where
  "once_ok e = (case callback e of Plain f \<Rightarrow> True | OnceWrapper i f \<Rightarrow> i = handle e)"

definition wf_registry :: "Dispatcher \<Rightarrow> bool" where
  "wf_registry d = (\<forall>e \<in> set (entries d). once_ok e)"

text \<open>Reading the history.\<close>

fun is_call :: "handle_t \<Rightarrow> event \<Rightarrow> bool" where
  "is_call h (Called h' m) = (h' = h)"
| "is_call h _ = False"

definition times_called :: "handle_t \<Rightarrow> event list \<Rightarrow> nat" where
  "times_called h evs = length (filter (is_call h) evs)"

fun issued :: "event list \<Rightarrow> handle_t list" where
  "issued [] = []"
| "issued (Issued h # evs) = h # issued evs"
| "issued (_ # evs) = issued evs"

fun enqueued :: "event list \<Rightarrow> (type_index \<times> msg) list" where
  "enqueued [] = []"
| "enqueued (Enqueued t m # evs) = (t, m) # enqueued evs"
| "enqueued (_ # evs) = enqueued evs"

fun delivered :: "event list \<Rightarrow> (type_index \<times> msg) list" where
  "delivered [] = []"
| "delivered (Delivered t m # evs) = (t, m) # delivered evs"
| "delivered (_ # evs) = delivered evs"

text \<open>What was added to the history between two states.\<close>

definition since :: "world \<Rightarrow> world \<Rightarrow> event list" where
  "since w w' = drop (length (trace w)) (trace w')"

text \<open>
  The set of ids a stored callback has captured: the closure of \<^verbatim>\<open>listenOnce\<close>
  has captured its \<^verbatim>\<open>listenerId\<close>.
\<close>

fun once_id :: "callback \<Rightarrow> handle_t set" where
  "once_id (Plain f) = {}"
| "once_id (OnceWrapper i f) = {i}"

text \<open>\<open>grows w w'\<close>: the history of the second state extends that of the first.\<close>

definition grows :: "world \<Rightarrow> world \<Rightarrow> bool" where
  "grows w w' \<longleftrightarrow> (\<exists>ev. trace w' = trace w @ ev)"

text \<open>
  \<open>frame X w w'\<close> relates the state before a piece of execution to the state after
  it: the history has only grown; every handle of the old Pending-Removal Set outside
  \<open>X\<close> is still in the set; no callback of a handle of the old set or of \<open>X\<close> was
  called; and if no user code threw in between, the set is exactly the old one without
  \<open>X\<close>.
\<close>

definition frame :: "handle_t set \<Rightarrow> world \<Rightarrow> world \<Rightarrow> bool" where
  "frame X w w' \<longleftrightarrow>
     (\<exists>ev. trace w' = trace w @ ev \<and>
        pending w - X \<subseteq> pending w' \<and>
        (\<forall>h \<in> pending w \<union> X. times_called h ev = 0) \<and>
        (Raised \<notin> set ev \<longrightarrow> pending w' = pending w - X))"


text \<open>
  \<open>keeps_out c h w w'\<close>: if the handle \<open>h\<close> was not handed out between the two
  states, then no entry has it in the second one, and (when \<open>c\<close>) no callback of an
  entry with this handle was called in between.
\<close>

definition keeps_out :: "bool \<Rightarrow> handle_t \<Rightarrow> world \<Rightarrow> world \<Rightarrow> bool" where
  "keeps_out c h w w' \<longleftrightarrow>
     (Issued h \<notin> set (since w w') \<longrightarrow>
        \<not> registered (disp w') h \<and> (c \<longrightarrow> times_called h (since w w') = 0))"




text \<open>
  \<open>hands_out w w'\<close>: between the two states the history has only grown, and the
  handles handed out in between are \<^verbatim>\<open>nextListenerId\<close> of the first state and its
  successors, one after the other in 64-bit arithmetic, up to \<^verbatim>\<open>nextListenerId\<close> of
  the second state.
\<close>

definition hands_out :: "world \<Rightarrow> world \<Rightarrow> bool" where
  "hands_out w w' \<longleftrightarrow>
     (\<exists>ev k. trace w' = trace w @ ev \<and>
        issued ev = map (\<lambda>i. nextListenerId (disp w) + of_nat i) [0..<k] \<and>
        nextListenerId (disp w') = nextListenerId (disp w) + of_nat k)"



text \<open>Descending priority, in a bucket and in every bucket.\<close>

definition sorted_desc :: "ListenerEntry list \<Rightarrow> bool" where
  "sorted_desc b = sorted_wrt (\<lambda>x y. priority y \<le> priority x) b"

definition ordered_registry :: "Dispatcher \<Rightarrow> bool" where
  "ordered_registry d = (\<forall>p \<in> set (listenersByType d). sorted_desc (snd p))"

text \<open>
  \<open>earlier x y\<close>: the entry \<open>x\<close> has the higher priority, or the same priority and
  the smaller handle. \<open>registration_ordered w\<close>: the counter is the number of handles
  handed out so far, in 64-bit arithmetic; and as long as that number is at most \<open>2^64\<close>,
  the handle of every entry is below it and every bucket is in the order \<open>earlier\<close>.
\<close>

definition earlier :: "ListenerEntry \<Rightarrow> ListenerEntry \<Rightarrow> bool" where
  "earlier x y \<longleftrightarrow>
     priority y < priority x \<or> (priority y = priority x \<and> handle x < handle y)"

definition registration_ordered :: "world \<Rightarrow> bool" where
  "registration_ordered w \<longleftrightarrow>
     nextListenerId (disp w) = of_nat (length (issued (trace w))) \<and>
     (length (issued (trace w)) \<le> 2 ^ 64 \<longrightarrow>
        (\<forall>e \<in> set (entries (disp w)). unat (handle e) < length (issued (trace w))) \<and>
        (\<forall>p \<in> set (listenersByType (disp w)). sorted_wrt earlier (snd p)))"

subsection \<open>Example clients\<close>

text \<open>
  A listener subscribed with \<^verbatim>\<open>listenOnce\<close>, of priority 10, that records 1, then
  removes the handle 1 and subscribes a new listener of priority 7; and a listener of
  priority 5 with the handle 1; both on the type 0.
\<close>

definition ex_remover :: ListenerEntry where
  "ex_remover =
     \<lparr>handle = 0, priority = 10,
      callback = OnceWrapper 0
        (\<lambda>m. Emit 1 (Remove 1 (Listen 0 (\<lambda>m. Emit 3 Return) 7 (\<lambda>h. Return))))\<rparr>"

definition ex_removed :: ListenerEntry where
  "ex_removed = \<lparr>handle = 1, priority = 5, callback = Plain (\<lambda>m. Emit 2 Return)\<rparr>"

definition ex_world_remover :: world where
  "ex_world_remover =
     \<lparr>disp = \<lparr>listenersByType = [(0, [ex_remover, ex_removed])], queuedDispatches = [],
              listenersScheduledForRemoval = {}, nextListenerId = 2\<rparr>,
      trace = [Issued 0, Issued 1]\<rparr>"

text \<open>
  Three subscriptions to the type 0 with the priorities 5, 10 and 5, each listener
  recording a number of its own.
\<close>

definition ex_three_listeners :: prog where
  "ex_three_listeners =
     Listen 0 (\<lambda>m. Emit 2 Return) 5
       (\<lambda>h. Listen 0 (\<lambda>m. Emit 1 Return) 10
         (\<lambda>h. Listen 0 (\<lambda>m. Emit 3 Return) 5 (\<lambda>h. Return)))"



text \<open>
  A listener that does nothing, and a client that subscribes it and removes it again
  at once.
\<close>

definition ex_idle :: "msg \<Rightarrow> prog" where
  "ex_idle m = Return"

definition ex_subscribe_remove :: "Dispatcher \<Rightarrow> Dispatcher" where
  "ex_subscribe_remove d =
     remove (snd (listen d 0 ex_idle 0)) (fst (listen d 0 ex_idle 0))"

text \<open>
  A client that subscribes, with \<^verbatim>\<open>listenOnce\<close>, a listener to the type 1 that
  throws, and a listener to the type 0 that dispatches the message it got as a message
  of the type 1 and catches whatever that throws.
\<close>

definition ex_thrower :: prog where
  "ex_thrower =
     ListenOnce 1 (\<lambda>m. Throw) 0
       (\<lambda>h. Listen 0 (\<lambda>m. Try (Dispatch 1 m Return) Return Return) 0 (\<lambda>h. Return))"


text \<open>
  On the type 0: a listener of priority 10 that records 1; a listener subscribed with
  \<^verbatim>\<open>listenOnce\<close>, of priority 5, that dispatches the message it got again and then
  records 2; and a listener of priority 1 that dispatches the message 0 unless it got
  the message 0, in which case it records 3.
\<close>

definition ex_ahead :: ListenerEntry where
  "ex_ahead = \<lparr>handle = 0, priority = 10, callback = Plain (\<lambda>m. Emit 1 Return)\<rparr>"

definition ex_once :: ListenerEntry where
  "ex_once =
     \<lparr>handle = 1, priority = 5,
      callback = OnceWrapper 1 (\<lambda>m. Dispatch 0 m (Emit 2 Return))\<rparr>"

definition ex_behind :: ListenerEntry where
  "ex_behind =
     \<lparr>handle = 2, priority = 1,
      callback = Plain (\<lambda>m. if m = 0 then Emit 3 Return else Dispatch 0 0 Return)\<rparr>"

definition ex_world_once :: world where
  "ex_world_once =
     \<lparr>disp = \<lparr>listenersByType = [(0, [ex_ahead, ex_once, ex_behind])], queuedDispatches = [],
              listenersScheduledForRemoval = {}, nextListenerId = 3\<rparr>,
      trace = [Issued 0, Issued 1, Issued 2]\<rparr>"


section \<open>Facts about the operations\<close>

subsection \<open>The registry\<close>

lemma mem_entries:
  "e \<in> set (entries d) \<longleftrightarrow> (\<exists>p \<in> set (listenersByType d). e \<in> set (snd p))"
  by (simp add: entries_def)

lemma bucket_entries:
  assumes "map_of (listenersByType d) t = Some b"
  shows "set b \<subseteq> set (entries d)"
proof
  fix x assume "x \<in> set b"
  moreover have "(t, b) \<in> set (listenersByType d)" using assms by (rule map_of_SomeD)
  ultimately show "x \<in> set (entries d)" unfolding mem_entries by (intro bexI[of _ "(t, b)"]) simp_all
qed

lemma set_concat_update:
  "set (case map_of al t of None \<Rightarrow> [] | Some b \<Rightarrow> b) \<subseteq> set v \<Longrightarrow>
   set (concat (map snd (AList.update t v al))) = set v \<union> set (concat (map snd al))"
  by (induction al) (auto split: if_splits)

lemma set_insert_split:
  "set (takeWhile P b @ e # dropWhile P b) = insert e (set b)"
proof -
  have "set (takeWhile P b) \<union> set (dropWhile P b) = set (takeWhile P b @ dropWhile P b)"
    by (simp only: set_append)
  then have "set (takeWhile P b) \<union> set (dropWhile P b) = set b" by simp
  then show ?thesis by simp
qed

lemma set_entries_addListener:
  "set (entries (snd (addListener d t cb p))) =
     insert \<lparr>handle = nextListenerId d, priority = p, callback = cb\<rparr> (set (entries d))"
proof -
  define b where "b = (case map_of (listenersByType d) t of None \<Rightarrow> [] | Some b \<Rightarrow> b)"
  define e where "e = \<lparr>handle = nextListenerId d, priority = p, callback = cb\<rparr>"
  define v where "v = takeWhile (\<lambda>e. \<not> priority e < p) b @ e # dropWhile (\<lambda>e. \<not> priority e < p) b"
  have sv: "set v = insert e (set b)" unfolding v_def by (rule set_insert_split)
  have sub: "set b \<subseteq> set (entries d)"
    using bucket_entries[of d t] unfolding b_def by (cases "map_of (listenersByType d) t") auto
  have "entries (snd (addListener d t cb p)) = concat (map snd (AList.update t v (listenersByType d)))"
    unfolding addListener_def entries_def Let_def v_def b_def e_def by simp
  moreover have "set (concat (map snd (AList.update t v (listenersByType d)))) = set v \<union> set (concat (map snd (listenersByType d)))"
    by (rule set_concat_update) (use sv b_def in auto)
  ultimately have "set (entries (snd (addListener d t cb p))) = set v \<union> set (entries d)"
    by (simp add: entries_def)
  then show ?thesis using sv sub unfolding e_def by auto
qed

lemma set_concat_filter:
  "set (concat (map snd (map (\<lambda>(t, vec). (t, filter P vec)) xs))) =
     {e \<in> set (concat (map snd xs)). P e}"
  by (induction xs) auto

lemma set_entries_remove:
  "set (entries (remove d h)) =
     (if h \<in> listenersScheduledForRemoval d then set (entries d)
      else {e \<in> set (entries d). handle e \<noteq> h})"
  by (simp add: entries_def remove_def set_concat_filter del: set_concat map_map)

lemma addListener_fields [simp]:
  "fst (addListener d t cb p) = nextListenerId d"
  "listenersScheduledForRemoval (snd (addListener d t cb p)) = listenersScheduledForRemoval d"
  "queuedDispatches (snd (addListener d t cb p)) = queuedDispatches d"
  "nextListenerId (snd (addListener d t cb p)) = nextListenerId d + 1"
  by (simp_all add: addListener_def Let_def)

lemma remove_fields [simp]:
  "listenersScheduledForRemoval (remove d h) = listenersScheduledForRemoval d"
  "queuedDispatches (remove d h) = queuedDispatches d"
  "nextListenerId (remove d h) = nextListenerId d"
  by (simp_all add: remove_def)

lemma queue_fields [simp]:
  "listenersScheduledForRemoval (queue d t m) = listenersScheduledForRemoval d"
  "listenersByType (queue d t m) = listenersByType d"
  "nextListenerId (queue d t m) = nextListenerId d"
  "queuedDispatches (queue d t m) = queuedDispatches d @ [(t, m)]"
  by (simp_all add: queue_def)

lemma entries_cong [simp]:
  "entries (d\<lparr>listenersScheduledForRemoval := S\<rparr>) = entries d"
  "entries (d\<lparr>queuedDispatches := q\<rparr>) = entries d"
  "entries (queue d t m) = entries d"
  by (simp_all add: entries_def)

lemma wf_addListener:
  "wf_registry d \<Longrightarrow> once_ok \<lparr>handle = nextListenerId d, priority = p, callback = cb\<rparr> \<Longrightarrow>
   wf_registry (snd (addListener d t cb p))"
  by (simp add: wf_registry_def set_entries_addListener)

lemma wf_listen: "wf_registry d \<Longrightarrow> listen d t f p = (h, d') \<Longrightarrow> wf_registry d'"
  using wf_addListener[of d p "Plain f" t] by (simp add: listen_def once_ok_def)

lemma wf_listenOnce: "wf_registry d \<Longrightarrow> listenOnce d t f p = (h, d') \<Longrightarrow> wf_registry d'"
  using wf_addListener[of d p "OnceWrapper (nextListenerId d) f" t]
  by (simp add: listenOnce_def once_ok_def)

lemma wf_remove: "wf_registry d \<Longrightarrow> wf_registry (remove d h)"
  by (simp add: wf_registry_def set_entries_remove)

lemma wf_cong [simp]:
  "wf_registry (d\<lparr>listenersScheduledForRemoval := S\<rparr>) = wf_registry d"
  "wf_registry (d\<lparr>queuedDispatches := q\<rparr>) = wf_registry d"
  "wf_registry (queue d t m) = wf_registry d"
  by (simp_all add: wf_registry_def)

lemma listen_pending:
  "listen d t f p = (h, d') \<Longrightarrow> listenersScheduledForRemoval d' = listenersScheduledForRemoval d"
  "listenOnce d t f p = (h, d') \<Longrightarrow> listenersScheduledForRemoval d' = listenersScheduledForRemoval d"
  using addListener_fields(2)[of d t "Plain f" p]
    addListener_fields(2)[of d t "OnceWrapper (nextListenerId d) f" p]
  by (simp_all add: listen_def listenOnce_def)

lemma times_called_simps [simp]:
  "times_called h [] = 0"
  "times_called h (evs @ evs') = times_called h evs + times_called h evs'"
  "times_called h (Called h' m # evs) = (if h' = h then 1 else 0) + times_called h evs"
  "times_called h (Issued h' # evs) = times_called h evs"
  "times_called h (Enqueued t m # evs) = times_called h evs"
  "times_called h (Delivered t m # evs) = times_called h evs"
  "times_called h (Emitted x # evs) = times_called h evs"
  "times_called h (Removed h' # evs) = times_called h evs"
  "times_called h (Raised # evs) = times_called h evs"
  by (simp_all add: times_called_def)

lemma list_ex_handle:
  "list_ex (\<lambda>(t, vec). list_ex (\<lambda>entry. handle entry = h) vec) xs \<longleftrightarrow>
     h \<in> handle ` set (concat (map snd xs))"
  by (induction xs) (auto simp: list_ex_iff)

lemma registered_iff: "registered d h \<longleftrightarrow> h \<in> handle ` set (entries d)"
  unfolding registered_def entries_def by (rule list_ex_handle)

lemma hasListener_iff:
  "hasListener d h \<longleftrightarrow> h \<notin> listenersScheduledForRemoval d \<and> registered d h"
  by (simp add: hasListener_def registered_def)

lemma remove_not_registered: "\<not> registered d h \<Longrightarrow> remove d h = d"
proof -
  assume a: "\<not> registered d h"
  have "map (\<lambda>(t, vec). (t, filter (\<lambda>entry. handle entry \<noteq> h) vec)) (listenersByType d)
          = listenersByType d"
  proof (rule map_idI)
    fix p assume p: "p \<in> set (listenersByType d)"
    have "handle e \<noteq> h" if "e \<in> set (snd p)" for e
    proof -
      have "e \<in> set (entries d)" unfolding mem_entries using p that by (rule bexI[rotated])
      then show ?thesis using a unfolding registered_iff by blast
    qed
    then have "filter (\<lambda>entry. handle entry \<noteq> h) (snd p) = snd p" by (simp add: filter_id_conv)
    then show "(case p of (t, vec) \<Rightarrow> (t, filter (\<lambda>entry. handle entry \<noteq> h) vec)) = p"
      by (cases p) simp
  qed
  then show ?thesis by (simp add: remove_def)
qed

lemma not_registered_remove:
  "h \<notin> listenersScheduledForRemoval d \<Longrightarrow> \<not> registered (remove d h) h"
  by (auto simp: registered_iff set_entries_remove)

lemma not_hasListener_remove: "\<not> hasListener (remove d h) h"
  using not_registered_remove[of h d] by (auto simp: hasListener_iff)

lemma remove_twice: "remove (remove d h) h = remove d h"
proof (cases "h \<in> listenersScheduledForRemoval d")
  case True then show ?thesis by (simp add: remove_def)
next
  case False then show ?thesis by (simp add: remove_not_registered not_registered_remove)
qed

lemma dispatch_no_subscriber:
  "map_of (listenersByType (disp w)) t = None \<or> map_of (listenersByType (disp w)) t = Some [] \<Longrightarrow>
   dispatch n ip t m w = Ok (w, [])"
  by auto

subsection \<open>Nothing fails\<close>

text \<open>
  Claim C6. The operations that run no listener are total functions with no error
  value: \<^verbatim>\<open>listen\<close>, \<^verbatim>\<open>listenOnce\<close>, \<^verbatim>\<open>queue\<close>, \<^verbatim>\<open>remove\<close> and
  \<^verbatim>\<open>hasListener\<close> always return. For every state: \<^verbatim>\<open>dispatch\<close> of a type with
  no subscriber (no bucket, or an empty one) returns, with any fuel, and leaves the state
  as it is; \<^verbatim>\<open>remove\<close> of a handle that no entry has leaves the state as it is;
  a second \<^verbatim>\<open>remove\<close> of the same handle changes nothing; and \<^verbatim>\<open>hasListener\<close>
  of a handle that no entry has is false.
\<close>
theorem no_subscriber_unknown_handle_noop:
  "(map_of (listenersByType (disp w)) t = None \<or> map_of (listenersByType (disp w)) t = Some []
      \<longrightarrow> dispatch n ip t m w = Ok (w, []))
   \<and> (\<not> registered d h \<longrightarrow> remove d h = d)
   \<and> remove (remove d h) h = remove d h
   \<and> (\<not> registered d h \<longrightarrow> \<not> hasListener d h)"
  using dispatch_no_subscriber[of w t n ip m] remove_not_registered[of d h] remove_twice[of d h]
  by (simp add: hasListener_iff)

theorem no_subscriber_unknown_handle_noop_witness:
  "map_of (listenersByType (disp \<lparr>disp = snd (listen new_Dispatcher 0 (\<lambda>m. Return) 0), trace = []\<rparr>)) 1 = None
   \<and> dispatch 0 False 1 7 \<lparr>disp = snd (listen new_Dispatcher 0 (\<lambda>m. Return) 0), trace = []\<rparr>
       = Ok (\<lparr>disp = snd (listen new_Dispatcher 0 (\<lambda>m. Return) 0), trace = []\<rparr>, [])
   \<and> \<not> registered (snd (listen new_Dispatcher 0 (\<lambda>m. Return) 0)) 5
   \<and> remove (snd (listen new_Dispatcher 0 (\<lambda>m. Return) 0)) 5 = snd (listen new_Dispatcher 0 (\<lambda>m. Return) 0)
   \<and> \<not> hasListener (snd (listen new_Dispatcher 0 (\<lambda>m. Return) 0)) 5
   \<and> hasListener (snd (listen new_Dispatcher 0 (\<lambda>m. Return) 0)) 0
   \<and> \<not> hasListener (remove (snd (listen new_Dispatcher 0 (\<lambda>m. Return) 0)) 0) 0
   \<and> remove (remove (snd (listen new_Dispatcher 0 (\<lambda>m. Return) 0)) 0) 0 = remove (snd (listen new_Dispatcher 0 (\<lambda>m. Return) 0)) 0"
proof -
  let ?d = "snd (listen new_Dispatcher 0 (\<lambda>m. Return) 0)"
  let ?w = "\<lparr>disp = ?d, trace = []\<rparr>"
  have h1: "map_of (listenersByType (disp ?w)) 1 = None"
    by (simp add: listen_def addListener_def new_Dispatcher_def)
  have h2: "\<not> registered ?d 5"
    by (simp add: registered_def listen_def addListener_def new_Dispatcher_def)
  have h3: "hasListener ?d 0 \<and> \<not> hasListener (remove ?d 0) 0"
    by (simp add: hasListener_def remove_def listen_def addListener_def new_Dispatcher_def)
  show ?thesis
    using no_subscriber_unknown_handle_noop[of ?w 1 0 False 7 ?d 5]
      no_subscriber_unknown_handle_noop[of ?w 1 0 False 7 ?d 0] h1 h2 h3
    by simp
qed

subsection \<open>What every step preserves\<close>

lemma ended_cases:
  assumes "ended r = Some x"
  obtains "r = Ok x" | "r = Threw x"
  using assms by (cases r) auto

text \<open>
  A relation between states that holds of every single step of the Dispatcher, and is
  reflexive and transitive, holds between the state before and the state after every
  execution that ends, by a return or by an exception.
\<close>

lemma steps_related:
  assumes refl: "\<And>w. R w w"
    and trans: "\<And>a b c. R a b \<Longrightarrow> R b c \<Longrightarrow> R a c"
    and emit: "\<And>w x. R w (log_event (Emitted x) w)"
    and call: "\<And>w h m. R w (log_event (Called h m) w)"
    and deliver: "\<And>w t m. R w (log_event (Delivered t m) w)"
    and raise: "\<And>w. R w (log_event Raised w)"
    and add: "\<And>w t cb p.
                once_ok \<lparr>handle = nextListenerId (disp w), priority = p, callback = cb\<rparr> \<Longrightarrow>
                R w (log_event (Issued (nextListenerId (disp w)))
                       (w\<lparr>disp := snd (addListener (disp w) t cb p)\<rparr>))"
    and enq: "\<And>w t m. R w (log_event (Enqueued t m) (w\<lparr>disp := queue (disp w) t m\<rparr>))"
    and rem: "\<And>w h. R w (remove_logged h w)"
    and pend: "\<And>w S. R w (w\<lparr>disp := (disp w)\<lparr>listenersScheduledForRemoval := S\<rparr>\<rparr>)"
    and clear: "\<And>w. R w (w\<lparr>disp := (disp w)\<lparr>queuedDispatches := []\<rparr>\<rparr>)"
  shows "ended (run n ip p w) = Some w' \<Longrightarrow> R w w'"
  and "ended (invoke n ip cb m w) = Some w' \<Longrightarrow> R w w'"
  and "ended (dispatch_loop n ip es m w) = Some (w', c) \<Longrightarrow> R w w'"
  and "ended (dispatch n ip t m w) = Some (w', c) \<Longrightarrow> R w w'"
  and "ended (process_loop n i w) = Some w' \<Longrightarrow> R w w'"
  and "ended (process n w) = Some w' \<Longrightarrow> R w w'"
proof (induction n ip p w and n ip cb m w and n ip es m w and n ip t m w and n i w and n w
       arbitrary: w' and w' and w' c and w' c and w' and w'
       rule: run_invoke_dispatch_loop_dispatch_process_loop_process.induct)
  case (1 ip p w)
  then show ?case by simp
next
  case (2 n ip w)
  then show ?case using refl by simp
next
  case (3 n ip x k w)
  have "R (log_event (Emitted x) w) w'" using "3.IH" "3.prems" by simp
  then show ?case using emit trans by blast
next
  case (4 n ip k w)
  then show ?case by simp
next
  case (5 n ip t f prio k w)
  let ?w0 = "log_event (Issued (nextListenerId (disp w)))
               (w\<lparr>disp := snd (addListener (disp w) t (Plain f) prio)\<rparr>)"
  have hd: "(nextListenerId (disp w), snd (addListener (disp w) t (Plain f) prio))
              = listen (disp w) t f prio"
    by (simp add: listen_def prod_eq_iff)
  have "R ?w0 w'" using "5.IH"[OF hd] "5.prems" hd[symmetric] by simp
  moreover have "R w ?w0" by (rule add) (simp add: once_ok_def)
  ultimately show ?case using trans by blast
next
  case (6 n ip t f prio k w)
  let ?cb = "OnceWrapper (nextListenerId (disp w)) f"
  let ?w0 = "log_event (Issued (nextListenerId (disp w)))
               (w\<lparr>disp := snd (addListener (disp w) t ?cb prio)\<rparr>)"
  have hd: "(nextListenerId (disp w), snd (addListener (disp w) t ?cb prio))
              = listenOnce (disp w) t f prio"
    by (simp add: listenOnce_def prod_eq_iff)
  have "R ?w0 w'" using "6.IH"[OF hd] "6.prems" hd[symmetric] by simp
  moreover have "R w ?w0" by (rule add) (simp add: once_ok_def)
  ultimately show ?case using trans by blast
next
  case (7 n ip t m k w)
  show ?case
  proof (cases "dispatch n ip t m w")
    case (Ok x)
    obtain w1 c1 where x: "x = (w1, c1)" by force
    have "R w w1" using "7.IH"(1) Ok x by simp
    moreover have "R w1 w'" using "7.IH"(2)[OF Ok x[symmetric]] "7.prems" Ok x by simp
    ultimately show ?thesis by (rule trans)
  next
    case (Threw x)
    obtain w1 c1 where x: "x = (w1, c1)" by force
    then have "w' = w1" using "7.prems" Threw by simp
    then show ?thesis using "7.IH"(1) Threw x by simp
  qed (use "7.prems" in simp_all)
next
  case (8 n ip t m k w)
  have "R (log_event (Enqueued t m) (w\<lparr>disp := queue (disp w) t m\<rparr>)) w'"
    using "8.IH" "8.prems" by simp
  then show ?case using enq trans by blast
next
  case (9 n ip k w)
  from "9.prems" have nip: "\<not> ip" by (auto split: if_splits)
  show ?case
  proof (cases "process n w")
    case (Ok w1)
    have "R w w1" using "9.IH"(1)[OF nip] Ok by simp
    moreover have "R w1 w'" using "9.IH"(2)[OF nip Ok] "9.prems" Ok nip by simp
    ultimately show ?thesis by (rule trans)
  next
    case (Threw w1)
    then have "w' = w1" using "9.prems" nip by simp
    then show ?thesis using "9.IH"(1)[OF nip] Threw by simp
  qed (use "9.prems" nip in simp_all)
next
  case (10 n ip h k w)
  have "R (remove_logged h w) w'" using "10.IH" "10.prems" by simp
  then show ?case using rem trans by blast
next
  case (11 n ip h k w)
  then show ?case by simp
next
  case (12 n ip w)
  then show ?case using raise by auto
next
  case (13 n ip body handler k w)
  show ?case
  proof (cases "run n ip body w")
    case (Ok w1)
    have "R w w1" using "13.IH"(1) Ok by simp
    moreover have "R w1 w'" using "13.IH"(2)[OF Ok] "13.prems" Ok by simp
    ultimately show ?thesis by (rule trans)
  next
    case (Threw w1)
    have a: "R w w1" using "13.IH"(1) Threw by simp
    show ?thesis
    proof (cases "run n ip handler w1")
      case (Ok w2)
      have "R w1 w2" using "13.IH"(3)[OF Threw] Ok by simp
      moreover have "R w2 w'" using "13.IH"(4)[OF Threw Ok] "13.prems" Threw Ok by simp
      ultimately show ?thesis using a trans by blast
    next
      case Threw2: (Threw w2)
      then have "w' = w2" using "13.prems" Threw by simp
      then have "R w1 w'" using "13.IH"(3)[OF Threw] Threw2 by simp
      then show ?thesis using a trans by blast
    qed (use "13.prems" Threw in simp_all)
  qed (use "13.prems" in simp_all)
next
  case (14 n ip listener m w)
  then show ?case by simp
next
  case (15 n ip listenerId listener m w)
  let ?w0 = "w\<lparr>disp := (disp w)\<lparr>listenersScheduledForRemoval :=
                insert listenerId (listenersScheduledForRemoval (disp w))\<rparr>\<rparr>"
  have a: "R w ?w0" by (rule pend)
  show ?case
  proof (cases "run n ip (listener m) ?w0")
    case (Ok w1)
    let ?w2 = "w1\<lparr>disp := (disp w1)\<lparr>listenersScheduledForRemoval :=
                   listenersScheduledForRemoval (disp w1) - {listenerId}\<rparr>\<rparr>"
    have "w' = remove_logged listenerId ?w2" using "15.prems" Ok by simp
    then have "R ?w2 w'" using rem by simp
    moreover have "R w1 ?w2" by (rule pend)
    moreover have "R ?w0 w1" using "15.IH" Ok by simp
    ultimately show ?thesis using a trans by blast
  next
    case (Threw w1)
    then have "w' = w1" using "15.prems" by simp
    then have "R ?w0 w'" using "15.IH" Threw by simp
    then show ?thesis using a trans by blast
  qed (use "15.prems" in simp_all)
next
  case (16 n ip m w)
  then show ?case using refl by simp
next
  case (17 n ip entry rest m w)
  show ?case
  proof (cases "handle entry \<in> listenersScheduledForRemoval (disp w)")
    case True
    then show ?thesis using 17 by simp
  next
    case False
    let ?w0 = "log_event (Called (handle entry) m) w"
    have a: "R w ?w0" by (rule call)
    show ?thesis
    proof (cases "invoke n ip (callback entry) m ?w0")
      case (Ok w1)
      have b: "R ?w0 w1" using "17.IH"(1)[OF False] Ok by simp
      have "ended (dispatch_loop n ip rest m w1) = Some (w', tl c)"
        using "17.prems" False Ok by (auto split: result.splits)
      then have "R w1 w'" using "17.IH"(2)[OF False Ok] by simp
      then show ?thesis using a b trans by blast
    next
      case (Threw w1)
      then have "w' = w1" using "17.prems" False by simp
      then have "R ?w0 w'" using "17.IH"(1)[OF False] Threw by simp
      then show ?thesis using a trans by blast
    qed (use "17.prems" False in simp_all)
  qed
next
  case (18 n ip t m w)
  then show ?case using refl by (auto split: option.splits)
next
  case (19 i w)
  then show ?case by simp
next
  case (20 n i w)
  show ?case
  proof (cases "i < length (queuedDispatches (disp w))")
    case False
    then show ?thesis using 20 refl by simp
  next
    case True
    obtain t m where tm: "queuedDispatches (disp w) ! i = (t, m)" by force
    let ?w0 = "log_event (Delivered t m) w"
    have a: "R w ?w0" by (rule deliver)
    show ?thesis
    proof (cases "dispatch n True t m ?w0")
      case (Ok x)
      obtain w1 c1 where x: "x = (w1, c1)" by force
      have b: "R ?w0 w1" using "20.IH"(1)[OF True tm[symmetric]] Ok x by simp
      have "R w1 w'"
        using "20.IH"(2)[OF True tm[symmetric] Ok x[symmetric]] "20.prems" True tm Ok x by simp
      then show ?thesis using a b trans by blast
    next
      case (Threw x)
      obtain w1 c1 where x: "x = (w1, c1)" by force
      then have "w' = w1" using "20.prems" True tm Threw by simp
      then have "R ?w0 w'" using "20.IH"(1)[OF True tm[symmetric]] Threw x by simp
      then show ?thesis using a trans by blast
    qed (use "20.prems" True tm in simp_all)
  qed
next
  case (21 n w)
  show ?case
  proof (cases "process_loop n 0 w")
    case (Ok w1)
    then have "w' = w1\<lparr>disp := (disp w1)\<lparr>queuedDispatches := []\<rparr>\<rparr>" using "21.prems" by simp
    then have "R w1 w'" using clear by simp
    moreover have "R w w1" using "21.IH" Ok by simp
    ultimately show ?thesis using trans by blast
  next
    case (Threw w1)
    then have "w' = w1" using "21.prems" by simp
    then show ?thesis using "21.IH" Threw by simp
  qed (use "21.prems" in simp_all)
qed

subsection \<open>The history only grows\<close>

lemma since_self [simp]: "since w w = []"
  by (simp add: since_def)

lemma since_log_event [simp]: "since w (log_event ev w) = [ev]"
  by (simp add: since_def log_event_def)

lemma log_event_fields [simp]:
  "disp (log_event ev w) = disp w"
  "trace (log_event ev w) = trace w @ [ev]"
  "pending (log_event ev w) = pending w"
  by (simp_all add: log_event_def pending_def)

lemma remove_logged_fields [simp]:
  "disp (remove_logged h w) = remove (disp w) h"
  "pending (remove_logged h w) = pending w"
  "trace (remove_logged h w) =
     (if h \<in> pending w then trace w else trace w @ [Removed h])"
  by (simp_all add: remove_logged_def pending_def log_event_def)

lemma pending_simps [simp]:
  "pending (w\<lparr>disp := d\<rparr>) = listenersScheduledForRemoval d"
  "pending (w\<lparr>trace := tr\<rparr>) = pending w"
  by (simp_all add: pending_def)

lemma grows_refl: "grows w w"
  by (simp add: grows_def)

lemma grows_trans: "grows a b \<Longrightarrow> grows b c \<Longrightarrow> grows a c"
  by (auto simp: grows_def)


lemma since_trans: "grows w w1 \<Longrightarrow> grows w1 w2 \<Longrightarrow> since w w2 = since w w1 @ since w1 w2"
  by (auto simp: grows_def since_def)


lemma grows:
  shows "ended (run n ip p w) = Some w' \<Longrightarrow> grows w w'"
  and "ended (invoke n ip cb m w) = Some w' \<Longrightarrow> grows w w'"
  and "ended (dispatch_loop n ip es m w) = Some (w', c) \<Longrightarrow> grows w w'"
  and "ended (dispatch n ip t m w) = Some (w', c) \<Longrightarrow> grows w w'"
  and "ended (process_loop n i w) = Some w' \<Longrightarrow> grows w w'"
  and "ended (process n w) = Some w' \<Longrightarrow> grows w w'"
proof -
  note r = steps_related[where R = grows, OF grows_refl grows_trans]
  show "ended (run n ip p w) = Some w' \<Longrightarrow> grows w w'"
    by (rule r(1)) (simp_all add: grows_def)
  show "ended (invoke n ip cb m w) = Some w' \<Longrightarrow> grows w w'"
    by (rule r(2)) (simp_all add: grows_def)
  show "ended (dispatch_loop n ip es m w) = Some (w', c) \<Longrightarrow> grows w w'"
    by (rule r(3)) (simp_all add: grows_def)
  show "ended (dispatch n ip t m w) = Some (w', c) \<Longrightarrow> grows w w'"
    by (rule r(4)) (simp_all add: grows_def)
  show "ended (process_loop n i w) = Some w' \<Longrightarrow> grows w w'"
    by (rule r(5)) (simp_all add: grows_def)
  show "ended (process n w) = Some w' \<Longrightarrow> grows w w'"
    by (rule r(6)) (simp_all add: grows_def)
qed

subsection \<open>Properties of the registry that every operation keeps\<close>

lemma registry_invariant:
  assumes add: "\<And>d t cb p. P d \<Longrightarrow>
                  once_ok \<lparr>handle = nextListenerId d, priority = p, callback = cb\<rparr> \<Longrightarrow>
                  P (snd (addListener d t cb p))"
    and rem: "\<And>d h. P d \<Longrightarrow> P (remove d h)"
    and cong: "\<And>d S. P (d\<lparr>listenersScheduledForRemoval := S\<rparr>) = P d"
              "\<And>d q. P (d\<lparr>queuedDispatches := q\<rparr>) = P d"
  shows "ended (run n ip p w) = Some w' \<Longrightarrow> P (disp w) \<Longrightarrow> P (disp w')"
  and "ended (invoke n ip cb m w) = Some w' \<Longrightarrow> P (disp w) \<Longrightarrow> P (disp w')"
  and "ended (dispatch_loop n ip es m w) = Some (w', c) \<Longrightarrow> P (disp w) \<Longrightarrow> P (disp w')"
  and "ended (dispatch n ip t m w) = Some (w', c) \<Longrightarrow> P (disp w) \<Longrightarrow> P (disp w')"
  and "ended (process_loop n i w) = Some w' \<Longrightarrow> P (disp w) \<Longrightarrow> P (disp w')"
  and "ended (process n w) = Some w' \<Longrightarrow> P (disp w) \<Longrightarrow> P (disp w')"
proof -
  have q: "P (queue d t m) = P d" for d t m
    by (simp add: queue_def cong)
  note r = steps_related[where R = "\<lambda>w w'. P (disp w) \<longrightarrow> P (disp w')"]
  show "ended (run n ip p w) = Some w' \<Longrightarrow> P (disp w) \<Longrightarrow> P (disp w')"
    using r(1)[of n ip p w w'] add rem cong q by simp
  show "ended (invoke n ip cb m w) = Some w' \<Longrightarrow> P (disp w) \<Longrightarrow> P (disp w')"
    using r(2)[of n ip cb m w w'] add rem cong q by simp
  show "ended (dispatch_loop n ip es m w) = Some (w', c) \<Longrightarrow> P (disp w) \<Longrightarrow> P (disp w')"
    using r(3)[of n ip es m w w' c] add rem cong q by simp
  show "ended (dispatch n ip t m w) = Some (w', c) \<Longrightarrow> P (disp w) \<Longrightarrow> P (disp w')"
    using r(4)[of n ip t m w w' c] add rem cong q by simp
  show "ended (process_loop n i w) = Some w' \<Longrightarrow> P (disp w) \<Longrightarrow> P (disp w')"
    using r(5)[of n i w w'] add rem cong q by simp
  show "ended (process n w) = Some w' \<Longrightarrow> P (disp w) \<Longrightarrow> P (disp w')"
    using r(6)[of n w w'] add rem cong q by simp
qed

lemma wf_kept:
  shows "ended (run n ip p w) = Some w' \<Longrightarrow> wf_registry (disp w) \<Longrightarrow> wf_registry (disp w')"
  and "ended (invoke n ip cb m w) = Some w' \<Longrightarrow> wf_registry (disp w) \<Longrightarrow>
         wf_registry (disp w')"
  and "ended (dispatch_loop n ip es m w) = Some (w', c) \<Longrightarrow> wf_registry (disp w) \<Longrightarrow>
         wf_registry (disp w')"
  and "ended (dispatch n ip t m w) = Some (w', c) \<Longrightarrow> wf_registry (disp w) \<Longrightarrow>
         wf_registry (disp w')"
  and "ended (process_loop n i w) = Some w' \<Longrightarrow> wf_registry (disp w) \<Longrightarrow>
         wf_registry (disp w')"
  and "ended (process n w) = Some w' \<Longrightarrow> wf_registry (disp w) \<Longrightarrow> wf_registry (disp w')"
proof -
  note r = registry_invariant[where P = wf_registry]
  show "ended (run n ip p w) = Some w' \<Longrightarrow> wf_registry (disp w) \<Longrightarrow> wf_registry (disp w')"
    using r(1)[of n ip p w w'] by (simp add: wf_addListener wf_remove)
  show "ended (invoke n ip cb m w) = Some w' \<Longrightarrow> wf_registry (disp w) \<Longrightarrow>
         wf_registry (disp w')"
    using r(2)[of n ip cb m w w'] by (simp add: wf_addListener wf_remove)
  show "ended (dispatch_loop n ip es m w) = Some (w', c) \<Longrightarrow> wf_registry (disp w) \<Longrightarrow>
         wf_registry (disp w')"
    using r(3)[of n ip es m w w' c] by (simp add: wf_addListener wf_remove)
  show "ended (dispatch n ip t m w) = Some (w', c) \<Longrightarrow> wf_registry (disp w) \<Longrightarrow>
         wf_registry (disp w')"
    using r(4)[of n ip t m w w' c] by (simp add: wf_addListener wf_remove)
  show "ended (process_loop n i w) = Some w' \<Longrightarrow> wf_registry (disp w) \<Longrightarrow>
         wf_registry (disp w')"
    using r(5)[of n i w w'] by (simp add: wf_addListener wf_remove)
  show "ended (process n w) = Some w' \<Longrightarrow> wf_registry (disp w) \<Longrightarrow> wf_registry (disp w')"
    using r(6)[of n w w'] by (simp add: wf_addListener wf_remove)
qed


subsection \<open>Handles are handed out in sequence\<close>

lemma issued_append [simp]: "issued (xs @ ys) = issued xs @ issued ys"
  by (induction xs rule: issued.induct) auto

lemma hands_out_refl: "hands_out w w"
  unfolding hands_out_def by (intro exI[of _ "[]"] exI[of _ 0]) simp

lemma map_upt_add:
  "map f [0..<k1 + k2] = map f [0..<k1] @ map (\<lambda>i. f (k1 + i)) [0..<k2]"
  by (induction k2) simp_all

lemma hands_out_trans:
  assumes "hands_out w w1" "hands_out w1 w2"
  shows "hands_out w w2"
proof -
  from assms(1) obtain ev1 k1 where a: "trace w1 = trace w @ ev1"
    "issued ev1 = map (\<lambda>i. nextListenerId (disp w) + of_nat i) [0..<k1]"
    "nextListenerId (disp w1) = nextListenerId (disp w) + of_nat k1"
    unfolding hands_out_def by blast
  from assms(2) obtain ev2 k2 where b: "trace w2 = trace w1 @ ev2"
    "issued ev2 = map (\<lambda>i. nextListenerId (disp w1) + of_nat i) [0..<k2]"
    "nextListenerId (disp w2) = nextListenerId (disp w1) + of_nat k2"
    unfolding hands_out_def by blast
  have "trace w2 = trace w @ (ev1 @ ev2)" using a(1) b(1) by simp
  moreover have "issued (ev1 @ ev2) =
      map (\<lambda>i. nextListenerId (disp w) + of_nat i) [0..<k1 + k2]"
    unfolding map_upt_add using a(2,3) b(2) by (simp add: add.assoc)
  moreover have "nextListenerId (disp w2) = nextListenerId (disp w) + of_nat (k1 + k2)"
    using a(3) b(3) by (simp add: add.assoc)
  ultimately show ?thesis unfolding hands_out_def by blast
qed

lemma hands_out_quiet:
  assumes "trace w0 = trace w @ evs" "issued evs = []"
    "nextListenerId (disp w0) = nextListenerId (disp w)"
  shows "hands_out w w0"
  unfolding hands_out_def using assms by (intro exI[of _ evs] exI[of _ 0]) simp

lemma hands_out_one:
  assumes "trace w0 = trace w @ [Issued (nextListenerId (disp w))]"
    "nextListenerId (disp w0) = nextListenerId (disp w) + 1"
  shows "hands_out w w0"
  unfolding hands_out_def using assms
  by (intro exI[of _ "[Issued (nextListenerId (disp w))]"] exI[of _ 1]) simp

lemma hands_out_remove: "hands_out w (remove_logged h w)"
  by (rule hands_out_quiet[where evs = "if h \<in> pending w then [] else [Removed h]"]) simp_all

lemma handles_in_sequence:
  shows "ended (run n ip p w) = Some w' \<Longrightarrow> hands_out w w'"
  and "ended (invoke n ip cb m w) = Some w' \<Longrightarrow> hands_out w w'"
  and "ended (dispatch_loop n ip es m w) = Some (w', c) \<Longrightarrow> hands_out w w'"
  and "ended (dispatch n ip t m w) = Some (w', c) \<Longrightarrow> hands_out w w'"
  and "ended (process_loop n i w) = Some w' \<Longrightarrow> hands_out w w'"
  and "ended (process n w) = Some w' \<Longrightarrow> hands_out w w'"
proof -
  have ev: "hands_out w (log_event e w)" if "issued [e] = []" for w e
    by (rule hands_out_quiet[where evs = "[e]"]) (use that in simp_all)
  have add: "hands_out w (log_event (Issued (nextListenerId (disp w)))
                       (w\<lparr>disp := snd (addListener (disp w) t cb p)\<rparr>))" for w t cb p
    by (rule hands_out_one) simp_all
  have enq: "hands_out w (log_event (Enqueued t m) (w\<lparr>disp := queue (disp w) t m\<rparr>))" for w t m
    by (rule hands_out_quiet[where evs = "[Enqueued t m]"]) simp_all
  have pend: "hands_out w (w\<lparr>disp := (disp w)\<lparr>listenersScheduledForRemoval := S\<rparr>\<rparr>)" for w S
    by (rule hands_out_quiet[where evs = "[]"]) simp_all
  have clear: "hands_out w (w\<lparr>disp := (disp w)\<lparr>queuedDispatches := []\<rparr>\<rparr>)" for w
    by (rule hands_out_quiet[where evs = "[]"]) simp_all
  note r = steps_related[where R = hands_out, OF hands_out_refl hands_out_trans
      ev ev ev ev add enq hands_out_remove pend clear]
  show "ended (run n ip p w) = Some w' \<Longrightarrow> hands_out w w'"
    by (rule r(1)) simp_all
  show "ended (invoke n ip cb m w) = Some w' \<Longrightarrow> hands_out w w'"
    by (rule r(2)) simp_all
  show "ended (dispatch_loop n ip es m w) = Some (w', c) \<Longrightarrow> hands_out w w'"
    by (rule r(3)) simp_all
  show "ended (dispatch n ip t m w) = Some (w', c) \<Longrightarrow> hands_out w w'"
    by (rule r(4)) simp_all
  show "ended (process_loop n i w) = Some w' \<Longrightarrow> hands_out w w'"
    by (rule r(5)) simp_all
  show "ended (process n w) = Some w' \<Longrightarrow> hands_out w w'"
    by (rule r(6)) simp_all
qed

lemma unat_plus_of_nat:
  assumes "unat (a :: 64 word) + i < 2 ^ 64"
  shows "unat (a + of_nat i) = unat a + i"
proof -
  have i: "i < 2 ^ 64" using assms by simp
  have u: "unat (of_nat i :: 64 word) = i" using i by (simp add: unat_of_nat)
  have "unat a + unat (of_nat i :: 64 word) < 2 ^ LENGTH(64)" using assms u by simp
  then have "unat (a + of_nat i) = unat a + unat (of_nat i :: 64 word)"
    by (simp only: unat_add_lem)
  then show ?thesis using u by simp
qed

lemma word_seq_sorted:
  assumes "unat (a :: 64 word) + k \<le> 2 ^ 64"
  shows "sorted_wrt (<) (map (\<lambda>i. a + of_nat i) [0..<k])"
  unfolding sorted_wrt_iff_nth_less
proof (intro allI impI)
  fix i j assume ij: "i < j" and j: "j < length (map (\<lambda>i. a + of_nat i) [0..<k])"
  then have jk: "j < k" and ik: "i < k" by simp_all
  have "unat (a + of_nat i) = unat a + i" "unat (a + of_nat j) = unat a + j"
    using assms jk ik by (simp_all add: unat_plus_of_nat)
  then have "a + of_nat i < a + of_nat j" using ij by (simp add: word_less_nat_alt)
  then show "map (\<lambda>i. a + of_nat i) [0..<k] ! i < map (\<lambda>i. a + of_nat i) [0..<k] ! j"
    using jk ik by simp
qed

lemma word_seq_above:
  assumes "unat (a :: 64 word) + k \<le> 2 ^ 64" "h \<in> set (map (\<lambda>i. a + of_nat i) [0..<k])"
  shows "a \<le> h"
proof -
  from assms(2) obtain i where i: "i < k" "h = a + of_nat i" by auto
  have "unat h = unat a + i" using assms(1) i by (simp add: unat_plus_of_nat)
  then show ?thesis by (simp add: word_le_nat_alt)
qed

lemma sorted_less_distinct: "sorted_wrt (<) (xs :: 64 word list) \<Longrightarrow> distinct xs"
  by (induction xs) auto

lemma hands_out_since:
  assumes "hands_out w w'"
  shows "issued (since w w') =
          map (\<lambda>i. nextListenerId (disp w) + of_nat i) [0..<length (issued (since w w'))]"
proof -
  from assms obtain ev k where e: "trace w' = trace w @ ev"
    "issued ev = map (\<lambda>i. nextListenerId (disp w) + of_nat i) [0..<k]"
    unfolding hands_out_def by blast
  have s: "since w w' = ev" using e(1) by (simp add: since_def)
  have "length (issued ev) = k" using e(2) by simp
  then show ?thesis using e(2) s by simp
qed

subsection \<open>A handle that is out stays out\<close>



lemma registered_cong [simp]:
  "registered (d\<lparr>listenersScheduledForRemoval := S\<rparr>) h = registered d h"
  "registered (d\<lparr>queuedDispatches := q\<rparr>) h = registered d h"
  "registered (queue d t m) h = registered d h"
  by (simp_all add: registered_iff)







subsection \<open>An exit by an exception is in the history\<close>

lemma grows_steps [simp]:
  "grows w (log_event e w)"
  "grows w (log_event e (w\<lparr>disp := d\<rparr>))"
  "grows w (remove_logged h w)"
  "grows w (w\<lparr>disp := d\<rparr>)"
  by (simp_all add: grows_def)

lemma grows_ok:
  shows "run n ip p w = Ok w' \<Longrightarrow> grows w w'"
  and "invoke n ip cb m w = Ok w' \<Longrightarrow> grows w w'"
  and "dispatch_loop n ip es m w = Ok (w', c) \<Longrightarrow> grows w w'"
  and "dispatch n ip t m w = Ok (w', c) \<Longrightarrow> grows w w'"
  and "process_loop n i w = Ok w' \<Longrightarrow> grows w w'"
  and "process n w = Ok w' \<Longrightarrow> grows w w'"
  using grows(1)[of n ip p w w'] grows(2)[of n ip cb m w w'] grows(3)[of n ip es m w w' c]
    grows(4)[of n ip t m w w' c] grows(5)[of n i w w'] grows(6)[of n w w']
  by simp_all

lemma grows_threw:
  shows "run n ip p w = Threw w' \<Longrightarrow> grows w w'"
  and "invoke n ip cb m w = Threw w' \<Longrightarrow> grows w w'"
  and "dispatch_loop n ip es m w = Threw (w', c) \<Longrightarrow> grows w w'"
  and "dispatch n ip t m w = Threw (w', c) \<Longrightarrow> grows w w'"
  and "process_loop n i w = Threw w' \<Longrightarrow> grows w w'"
  and "process n w = Threw w' \<Longrightarrow> grows w w'"
  using grows(1)[of n ip p w w'] grows(2)[of n ip cb m w w'] grows(3)[of n ip es m w w' c]
    grows(4)[of n ip t m w w' c] grows(5)[of n i w w'] grows(6)[of n w w']
  by simp_all

lemma raised_later:
  "grows w w1 \<Longrightarrow> grows w1 w' \<Longrightarrow> Raised \<in> set (since w1 w') \<Longrightarrow> Raised \<in> set (since w w')"
  by (simp add: since_trans)

lemma raised_earlier:
  "grows w w1 \<Longrightarrow> grows w1 w' \<Longrightarrow> Raised \<in> set (since w w1) \<Longrightarrow> Raised \<in> set (since w w')"
  by (simp add: since_trans)

lemma threw_raised:
  shows "run n ip p w = Threw w' \<Longrightarrow> Raised \<in> set (since w w')"
  and "invoke n ip cb m w = Threw w' \<Longrightarrow> Raised \<in> set (since w w')"
  and "dispatch_loop n ip es m w = Threw (w', c) \<Longrightarrow> Raised \<in> set (since w w')"
  and "dispatch n ip t m w = Threw (w', c) \<Longrightarrow> Raised \<in> set (since w w')"
  and "process_loop n i w = Threw w' \<Longrightarrow> Raised \<in> set (since w w')"
  and "process n w = Threw w' \<Longrightarrow> Raised \<in> set (since w w')"
proof (induction n ip p w and n ip cb m w and n ip es m w and n ip t m w and n i w and n w
       arbitrary: w' and w' and w' c and w' c and w' and w'
       rule: run_invoke_dispatch_loop_dispatch_process_loop_process.induct)
  case (1 ip p w)
  then show ?case by simp
next
  case (2 n ip w)
  then show ?case by simp
next
  case (3 n ip x k w)
  let ?w0 = "log_event (Emitted x) w"
  have r: "run n ip k ?w0 = Threw w'" using "3.prems" by simp
  have g: "grows ?w0 w'" by (rule grows_threw(1)[OF r])
  have "Raised \<in> set (since ?w0 w')" using "3.IH"[OF r] by simp
  then show ?case using raised_later[of w ?w0 w', OF _ g] by simp
next
  case (4 n ip k w)
  then show ?case by simp
next
  case (5 n ip t f prio k w)
  obtain h d where hd: "listen (disp w) t f prio = (h, d)" by force
  let ?w0 = "log_event (Issued h) (w\<lparr>disp := d\<rparr>)"
  have r: "run n ip (k h) ?w0 = Threw w'" using "5.prems" hd by simp
  have g: "grows ?w0 w'" by (rule grows_threw(1)[OF r])
  have "Raised \<in> set (since ?w0 w')" using "5.IH"[OF hd[symmetric] r] by simp
  then show ?case using raised_later[of w ?w0 w', OF _ g] by simp
next
  case (6 n ip t f prio k w)
  obtain h d where hd: "listenOnce (disp w) t f prio = (h, d)" by force
  let ?w0 = "log_event (Issued h) (w\<lparr>disp := d\<rparr>)"
  have r: "run n ip (k h) ?w0 = Threw w'" using "6.prems" hd by simp
  have g: "grows ?w0 w'" by (rule grows_threw(1)[OF r])
  have "Raised \<in> set (since ?w0 w')" using "6.IH"[OF hd[symmetric] r] by simp
  then show ?case using raised_later[of w ?w0 w', OF _ g] by simp
next
  case (7 n ip t m k w)
  show ?case
  proof (cases "dispatch n ip t m w")
    case (Ok x)
    obtain w1 c1 where x: "x = (w1, c1)" by force
    have r: "run n ip k w1 = Threw w'" using "7.prems" Ok x by simp
    have "grows w w1" by (rule grows_ok(4)[OF Ok[unfolded x]])
    moreover have "grows w1 w'" by (rule grows_threw(1)[OF r])
    ultimately show ?thesis using "7.IH"(2)[OF Ok x[symmetric] r] by (rule raised_later)
  next
    case (Threw x)
    obtain w1 c1 where x: "x = (w1, c1)" by force
    then have "w' = w1" using "7.prems" Threw by simp
    then show ?thesis using "7.IH"(1) Threw x by simp
  qed (use "7.prems" in simp_all)
next
  case (8 n ip t m k w)
  let ?w0 = "log_event (Enqueued t m) (w\<lparr>disp := queue (disp w) t m\<rparr>)"
  have r: "run n ip k ?w0 = Threw w'" using "8.prems" by simp
  have g: "grows ?w0 w'" by (rule grows_threw(1)[OF r])
  have "Raised \<in> set (since ?w0 w')" using "8.IH"[OF r] by simp
  then show ?case using raised_later[of w ?w0 w', OF _ g] by simp
next
  case (9 n ip k w)
  from "9.prems" have nip: "\<not> ip" by (auto split: if_splits)
  show ?case
  proof (cases "process n w")
    case (Ok w1)
    have r: "run n ip k w1 = Threw w'" using "9.prems" Ok nip by simp
    have "grows w w1" by (rule grows_ok(6)[OF Ok])
    moreover have "grows w1 w'" by (rule grows_threw(1)[OF r])
    ultimately show ?thesis using "9.IH"(2)[OF nip Ok r] by (rule raised_later)
  next
    case (Threw w1)
    then have "w' = w1" using "9.prems" nip by simp
    then show ?thesis using "9.IH"(1)[OF nip] Threw by simp
  qed (use "9.prems" nip in simp_all)
next
  case (10 n ip h k w)
  let ?w0 = "remove_logged h w"
  have r: "run n ip k ?w0 = Threw w'" using "10.prems" by simp
  have g: "grows ?w0 w'" by (rule grows_threw(1)[OF r])
  have "Raised \<in> set (since ?w0 w')" using "10.IH"[OF r] by simp
  then show ?case using raised_later[of w ?w0 w', OF _ g] by simp
next
  case (11 n ip h k w)
  then show ?case by simp
next
  case (12 n ip w)
  then show ?case by auto
next
  case (13 n ip body handler k w)
  show ?case
  proof (cases "run n ip body w")
    case (Ok w1)
    have r: "run n ip k w1 = Threw w'" using "13.prems" Ok by simp
    have "grows w w1" by (rule grows_ok(1)[OF Ok])
    moreover have "grows w1 w'" by (rule grows_threw(1)[OF r])
    ultimately show ?thesis using "13.IH"(2)[OF Ok r] by (rule raised_later)
  next
    case (Threw w1)
    have a: "Raised \<in> set (since w w1)" using "13.IH"(1) Threw by simp
    have g1: "grows w w1" by (rule grows_threw(1)[OF Threw])
    show ?thesis
    proof (cases "run n ip handler w1")
      case (Ok w2)
      have r: "run n ip k w2 = Threw w'" using "13.prems" Threw Ok by simp
      have "grows w1 w2" by (rule grows_ok(1)[OF Ok])
      moreover have "grows w2 w'" by (rule grows_threw(1)[OF r])
      ultimately have "grows w1 w'" by (rule grows_trans)
      with g1 show ?thesis using a by (rule raised_earlier)
    next
      case Threw2: (Threw w2)
      then have w': "w' = w2" using "13.prems" Threw by simp
      have "grows w1 w'" using grows_threw(1)[OF Threw2] w' by simp
      with g1 show ?thesis using a by (rule raised_earlier)
    qed (use "13.prems" Threw in simp_all)
  qed (use "13.prems" in simp_all)
next
  case (14 n ip listener m w)
  then show ?case by simp
next
  case (15 n ip listenerId listener m w)
  let ?w0 = "w\<lparr>disp := (disp w)\<lparr>listenersScheduledForRemoval :=
                insert listenerId (listenersScheduledForRemoval (disp w))\<rparr>\<rparr>"
  have r: "run n ip (listener m) ?w0 = Threw w'"
    using "15.prems" by (auto split: result.splits)
  have g: "grows ?w0 w'" by (rule grows_threw(1)[OF r])
  have "Raised \<in> set (since ?w0 w')" using "15.IH"[OF r] by simp
  then show ?case using raised_later[of w ?w0 w', OF _ g] by simp
next
  case (16 n ip m w)
  then show ?case by simp
next
  case (17 n ip entry rest m w)
  show ?case
  proof (cases "handle entry \<in> listenersScheduledForRemoval (disp w)")
    case True
    then show ?thesis using 17 by simp
  next
    case False
    let ?w0 = "log_event (Called (handle entry) m) w"
    show ?thesis
    proof (cases "invoke n ip (callback entry) m ?w0")
      case (Ok w1)
      obtain c1 where l: "dispatch_loop n ip rest m w1 = Threw (w', c1)"
        using "17.prems" False Ok by (auto split: result.splits)
      have "grows ?w0 w1" by (rule grows_ok(2)[OF Ok])
      then have "grows w w1" by (rule grows_trans[rotated]) simp
      moreover have "grows w1 w'" by (rule grows_threw(3)[OF l])
      ultimately show ?thesis using "17.IH"(2)[OF False Ok l] by (rule raised_later)
    next
      case (Threw w1)
      then have w': "w' = w1" using "17.prems" False by simp
      have g: "grows ?w0 w'" by (rule grows_threw(2)[OF Threw[unfolded w'[symmetric]]])
      have "Raised \<in> set (since ?w0 w')" using "17.IH"(1)[OF False] Threw w' by simp
      then show ?thesis using raised_later[of w ?w0 w', OF _ g] by simp
    qed (use "17.prems" False in simp_all)
  qed
next
  case (18 n ip t m w)
  then show ?case by (auto split: option.splits)
next
  case (19 i w)
  then show ?case by simp
next
  case (20 n i w)
  show ?case
  proof (cases "i < length (queuedDispatches (disp w))")
    case False
    then show ?thesis using 20 by simp
  next
    case True
    obtain t m where tm: "queuedDispatches (disp w) ! i = (t, m)" by force
    let ?w0 = "log_event (Delivered t m) w"
    show ?thesis
    proof (cases "dispatch n True t m ?w0")
      case (Ok x)
      obtain w1 c1 where x: "x = (w1, c1)" by force
      have l: "process_loop n (Suc i) w1 = Threw w'" using "20.prems" True tm Ok x by simp
      have "grows ?w0 w1" by (rule grows_ok(4)[OF Ok[unfolded x]])
      then have "grows w w1" by (rule grows_trans[rotated]) simp
      moreover have "grows w1 w'" by (rule grows_threw(5)[OF l])
      ultimately show ?thesis
        using "20.IH"(2)[OF True tm[symmetric] Ok x[symmetric] l] by (rule raised_later)
    next
      case (Threw x)
      obtain w1 c1 where x: "x = (w1, c1)" by force
      then have w': "w' = w1" using "20.prems" True tm Threw by simp
      have g: "grows ?w0 w'" by (rule grows_threw(4)[OF Threw[unfolded x w'[symmetric]]])
      have "Raised \<in> set (since ?w0 w')" using "20.IH"(1)[OF True tm[symmetric]] Threw x w' by simp
      then show ?thesis using raised_later[of w ?w0 w', OF _ g] by simp
    qed (use "20.prems" True tm in simp_all)
  qed
next
  case (21 n w)
  then show ?case by (auto split: result.splits)
qed

subsection \<open>The Pending-Removal Set across an execution\<close>

lemma frame_refl: "frame {} w w"
  unfolding frame_def by (intro exI[of _ "[]"]) simp

lemma frame_step:
  assumes "frame X w1 w2" "pending w1 = pending w" "trace w1 = trace w @ ev"
    "\<forall>h \<in> pending w \<union> X. times_called h ev = 0" "Raised \<notin> set ev"
  shows "frame X w w2"
proof -
  from assms(1) obtain ev2 where e2: "trace w2 = trace w1 @ ev2"
    "pending w1 - X \<subseteq> pending w2"
    "\<forall>h \<in> pending w1 \<union> X. times_called h ev2 = 0"
    "Raised \<notin> set ev2 \<longrightarrow> pending w2 = pending w1 - X"
    unfolding frame_def by blast
  have "trace w2 = trace w @ (ev @ ev2)" using e2(1) assms(3) by simp
  moreover have "\<forall>h \<in> pending w \<union> X. times_called h (ev @ ev2) = 0"
    using e2(3) assms(2,4) by simp
  moreover have "Raised \<notin> set (ev @ ev2) \<longrightarrow> pending w2 = pending w - X"
    using e2(4) assms(2,5) by simp
  moreover have "pending w - X \<subseteq> pending w2" using e2(2) assms(2) by simp
  ultimately show ?thesis unfolding frame_def by blast
qed

lemma frame_trans:
  assumes "frame {} w w1" "frame {} w1 w2"
  shows "frame {} w w2"
proof -
  from assms(1) obtain ev1 where e1: "trace w1 = trace w @ ev1"
    "pending w \<subseteq> pending w1"
    "\<forall>h \<in> pending w. times_called h ev1 = 0"
    "Raised \<notin> set ev1 \<longrightarrow> pending w1 = pending w"
    unfolding frame_def by auto
  from assms(2) obtain ev2 where e2: "trace w2 = trace w1 @ ev2"
    "pending w1 \<subseteq> pending w2"
    "\<forall>h \<in> pending w1. times_called h ev2 = 0"
    "Raised \<notin> set ev2 \<longrightarrow> pending w2 = pending w1"
    unfolding frame_def by auto
  have "trace w2 = trace w @ (ev1 @ ev2)" using e1(1) e2(1) by simp
  moreover have "\<forall>h \<in> pending w. times_called h (ev1 @ ev2) = 0"
    using e1(2,3) e2(3) by auto
  moreover have "Raised \<notin> set (ev1 @ ev2) \<longrightarrow> pending w2 = pending w"
    using e1(4) e2(4) by simp
  moreover have "pending w \<subseteq> pending w2" using e1(2) e2(2) by blast
  ultimately show ?thesis unfolding frame_def by (intro exI[of _ "ev1 @ ev2"]) simp
qed

lemma frame_called:
  assumes "frame X (log_event (Called h m) w) w1" "X \<subseteq> {h}" "h \<notin> pending w"
  shows "frame {} w w1"
proof -
  from assms(1) obtain ev1 where e1: "trace w1 = trace w @ Called h m # ev1"
    "pending w - X \<subseteq> pending w1"
    "\<forall>h' \<in> pending w \<union> X. times_called h' ev1 = 0"
    "Raised \<notin> set ev1 \<longrightarrow> pending w1 = pending w - X"
    unfolding frame_def by auto
  have px: "pending w - X = pending w" using assms(2,3) by auto
  have "\<forall>h' \<in> pending w. times_called h' (Called h m # ev1) = 0"
    using e1(3) assms(3) by auto
  moreover have "Raised \<notin> set (Called h m # ev1) \<longrightarrow> pending w1 = pending w"
    using e1(4) px by simp
  moreover have "pending w \<subseteq> pending w1" using e1(2) px by simp
  ultimately show ?thesis unfolding frame_def using e1(1)
    by (intro exI[of _ "Called h m # ev1"]) simp
qed

lemma frame_once_ok:
  assumes "frame {} (w\<lparr>disp := (disp w)\<lparr>listenersScheduledForRemoval :=
              insert i (listenersScheduledForRemoval (disp w))\<rparr>\<rparr>) w1"
  shows "frame {i} w
           (remove_logged i (w1\<lparr>disp := (disp w1)\<lparr>listenersScheduledForRemoval :=
              listenersScheduledForRemoval (disp w1) - {i}\<rparr>\<rparr>))"
proof -
  from assms obtain ev1 where e1: "trace w1 = trace w @ ev1"
    "insert i (pending w) \<subseteq> pending w1"
    "\<forall>h \<in> insert i (pending w). times_called h ev1 = 0"
    "Raised \<notin> set ev1 \<longrightarrow> pending w1 = insert i (pending w)"
    unfolding frame_def by (auto simp: pending_def)
  let ?w' = "remove_logged i (w1\<lparr>disp := (disp w1)\<lparr>listenersScheduledForRemoval :=
              listenersScheduledForRemoval (disp w1) - {i}\<rparr>\<rparr>)"
  have t: "trace ?w' = trace w @ (ev1 @ [Removed i])" using e1(1) by simp
  have p: "pending ?w' = pending w1 - {i}" by (simp add: pending_def)
  have "pending w - {i} \<subseteq> pending ?w'" using e1(2) p by auto
  moreover have "\<forall>h \<in> pending w \<union> {i}. times_called h (ev1 @ [Removed i]) = 0"
    using e1(3) by simp
  moreover have "Raised \<notin> set (ev1 @ [Removed i]) \<longrightarrow> pending ?w' = pending w - {i}"
    using e1(4) p by auto
  ultimately show ?thesis unfolding frame_def using t
    by (intro exI[of _ "ev1 @ [Removed i]"]) simp
qed

lemma frame_once_threw:
  assumes "frame {} (w\<lparr>disp := (disp w)\<lparr>listenersScheduledForRemoval :=
              insert i (listenersScheduledForRemoval (disp w))\<rparr>\<rparr>) w1"
    "Raised \<in> set (since (w\<lparr>disp := (disp w)\<lparr>listenersScheduledForRemoval :=
              insert i (listenersScheduledForRemoval (disp w))\<rparr>\<rparr>) w1)"
  shows "frame {i} w w1"
proof -
  from assms(1) obtain ev1 where e1: "trace w1 = trace w @ ev1"
    "insert i (pending w) \<subseteq> pending w1"
    "\<forall>h \<in> insert i (pending w). times_called h ev1 = 0"
    unfolding frame_def by (auto simp: pending_def)
  have "Raised \<in> set ev1" using assms(2) e1(1) by (simp add: since_def)
  moreover have "pending w - {i} \<subseteq> pending w1" using e1(2) by auto
  ultimately show ?thesis unfolding frame_def using e1(1,3)
    by (intro exI[of _ ev1]) simp
qed

lemma frame:
  shows "ended (run n ip p w) = Some w' \<Longrightarrow> wf_registry (disp w) \<Longrightarrow> frame {} w w'"
  and "ended (invoke n ip cb m w) = Some w' \<Longrightarrow> wf_registry (disp w) \<Longrightarrow>
        frame (once_id cb) w w'"
  and "ended (dispatch_loop n ip es m w) = Some (w', c) \<Longrightarrow> wf_registry (disp w) \<Longrightarrow>
        \<forall>e\<in>set es. once_ok e \<Longrightarrow> frame {} w w'"
  and "ended (dispatch n ip t m w) = Some (w', c) \<Longrightarrow> wf_registry (disp w) \<Longrightarrow> frame {} w w'"
  and "ended (process_loop n i w) = Some w' \<Longrightarrow> wf_registry (disp w) \<Longrightarrow> frame {} w w'"
  and "ended (process n w) = Some w' \<Longrightarrow> wf_registry (disp w) \<Longrightarrow> frame {} w w'"
proof (induction n ip p w and n ip cb m w and n ip es m w and n ip t m w and n i w and n w
       arbitrary: w' and w' and w' c and w' c and w' and w'
       rule: run_invoke_dispatch_loop_dispatch_process_loop_process.induct)
  case (1 ip p w)
  then show ?case by simp
next
  case (2 n ip w)
  then show ?case by (simp add: frame_refl)
next
  case (3 n ip x k w)
  show ?case
    apply (rule frame_step[OF "3.IH"[of w'], where ev = "[Emitted x]"])
    using "3.prems" by simp_all
next
  case (4 n ip k w)
  then show ?case by simp
next
  case (5 n ip t f prio k w)
  obtain h d where hd: "listen (disp w) t f prio = (h, d)" by force
  show ?case
    apply (rule frame_step[OF "5.IH"[of h d w'], where ev = "[Issued h]"])
    using "5.prems" hd wf_listen[OF _ hd] listen_pending(1)[OF hd]
    by (simp_all add: pending_def)
next
  case (6 n ip t f prio k w)
  obtain h d where hd: "listenOnce (disp w) t f prio = (h, d)" by force
  show ?case
    apply (rule frame_step[OF "6.IH"[of h d w'], where ev = "[Issued h]"])
    using "6.prems" hd wf_listenOnce[OF _ hd] listen_pending(2)[OF hd]
    by (simp_all add: pending_def)
next
  case (7 n ip t m k w)
  show ?case
  proof (cases "dispatch n ip t m w")
    case (Ok x)
    obtain w1 c1 where x: "x = (w1, c1)" by force
    have f1: "frame {} w w1" using "7.IH"(1)[of w1 c1] Ok x "7.prems" by simp
    have "wf_registry (disp w1)"
      using wf_kept(4)[of n ip t m w w1 c1] Ok x "7.prems" by simp
    then have "frame {} w1 w'" using "7.IH"(2)[OF Ok x[symmetric]] "7.prems" Ok x by simp
    with f1 show ?thesis by (rule frame_trans)
  next
    case (Threw x)
    obtain w1 c1 where x: "x = (w1, c1)" by force
    then have "w' = w1" using "7.prems" Threw by simp
    then show ?thesis using "7.IH"(1)[of w1 c1] Threw x "7.prems" by simp
  qed (use "7.prems" in simp_all)
next
  case (8 n ip t m k w)
  show ?case
    apply (rule frame_step[OF "8.IH"[of w'], where ev = "[Enqueued t m]"])
    using "8.prems" by (simp_all add: pending_def)
next
  case (9 n ip k w)
  from "9.prems" have nip: "\<not> ip" by (auto split: if_splits)
  show ?case
  proof (cases "process n w")
    case (Ok w1)
    have f1: "frame {} w w1" using "9.IH"(1)[OF nip, of w1] Ok "9.prems" by simp
    have "wf_registry (disp w1)" using wf_kept(6)[of n w w1] Ok "9.prems" by simp
    then have "frame {} w1 w'" using "9.IH"(2)[OF nip Ok] "9.prems" Ok nip by simp
    with f1 show ?thesis by (rule frame_trans)
  next
    case (Threw w1)
    then have "w' = w1" using "9.prems" nip by simp
    then show ?thesis using "9.IH"(1)[OF nip, of w1] Threw "9.prems" by simp
  qed (use "9.prems" nip in simp_all)
next
  case (10 n ip h k w)
  show ?case
    apply (rule frame_step[OF "10.IH"[of w'],
          where ev = "if h \<in> pending w then [] else [Removed h]"])
    using "10.prems" by (simp_all add: wf_remove)
next
  case (11 n ip h k w)
  then show ?case by simp
next
  case (12 n ip w)
  then have "w' = log_event Raised w" by simp
  then show ?case unfolding frame_def by (intro exI[of _ "[Raised]"]) simp
next
  case (13 n ip body handler k w)
  show ?case
  proof (cases "run n ip body w")
    case (Ok w1)
    have f1: "frame {} w w1" using "13.IH"(1)[of w1] Ok "13.prems" by simp
    have "wf_registry (disp w1)" using wf_kept(1)[of n ip body w w1] Ok "13.prems" by simp
    then have "frame {} w1 w'" using "13.IH"(2)[OF Ok] "13.prems" Ok by simp
    with f1 show ?thesis by (rule frame_trans)
  next
    case (Threw w1)
    have f1: "frame {} w w1" using "13.IH"(1)[of w1] Threw "13.prems" by simp
    have wf1: "wf_registry (disp w1)"
      using wf_kept(1)[of n ip body w w1] Threw "13.prems" by simp
    show ?thesis
    proof (cases "run n ip handler w1")
      case (Ok w2)
      have f2: "frame {} w1 w2" using "13.IH"(3)[OF Threw, of w2] Ok wf1 by simp
      have "wf_registry (disp w2)" using wf_kept(1)[of n ip handler w1 w2] Ok wf1 by simp
      then have "frame {} w2 w'" using "13.IH"(4)[OF Threw Ok] "13.prems" Threw Ok by simp
      with f2 have "frame {} w1 w'" by (rule frame_trans)
      with f1 show ?thesis by (rule frame_trans)
    next
      case Threw2: (Threw w2)
      then have "w' = w2" using "13.prems" Threw by simp
      then have "frame {} w1 w'" using "13.IH"(3)[OF Threw, of w2] Threw2 wf1 by simp
      with f1 show ?thesis by (rule frame_trans)
    qed (use "13.prems" Threw in simp_all)
  qed (use "13.prems" in simp_all)
next
  case (14 n ip listener m w)
  then show ?case by simp
next
  case (15 n ip listenerId listener m w)
  let ?w0 = "w\<lparr>disp := (disp w)\<lparr>listenersScheduledForRemoval :=
                insert listenerId (listenersScheduledForRemoval (disp w))\<rparr>\<rparr>"
  have wf0: "wf_registry (disp ?w0)" using "15.prems" by simp
  show ?case
  proof (cases "run n ip (listener m) ?w0")
    case (Ok w1)
    have "frame {} ?w0 w1" using "15.IH"[of w1] Ok wf0 by simp
    then show ?thesis using frame_once_ok[where w = w and i = listenerId and ?w1.0 = w1] "15.prems" Ok by simp
  next
    case (Threw w1)
    have "frame {} ?w0 w1" using "15.IH"[of w1] Threw wf0 by simp
    then show ?thesis
      using frame_once_threw[where w = w and i = listenerId and ?w1.0 = w1] threw_raised(1)[OF Threw] "15.prems" Threw
      by simp
  qed (use "15.prems" in simp_all)
next
  case (16 n ip m w)
  then show ?case by (simp add: frame_refl)
next
  case (17 n ip entry rest m w)
  show ?case
  proof (cases "handle entry \<in> listenersScheduledForRemoval (disp w)")
    case True
    then show ?thesis using 17 by simp
  next
    case False
    let ?w0 = "log_event (Called (handle entry) m) w"
    have sub: "once_id (callback entry) \<subseteq> {handle entry}"
      using "17.prems"(3) by (cases "callback entry") (auto simp: once_ok_def)
    have np: "handle entry \<notin> pending w" using False by (simp add: pending_def)
    have wf0: "wf_registry (disp ?w0)" using "17.prems" by simp
    show ?thesis
    proof (cases "invoke n ip (callback entry) m ?w0")
      case (Ok w1)
      have "frame (once_id (callback entry)) ?w0 w1"
        using "17.IH"(1)[OF False, of w1] Ok wf0 by simp
      then have f1: "frame {} w w1" using sub np by (rule frame_called)
      have wf1: "wf_registry (disp w1)"
        using wf_kept(2)[of n ip "callback entry" m ?w0 w1] Ok wf0 by simp
      have "ended (dispatch_loop n ip rest m w1) = Some (w', tl c)"
        using "17.prems" False Ok by (auto split: result.splits)
      then have "frame {} w1 w'" using "17.IH"(2)[OF False Ok] wf1 "17.prems"(3) by simp
      with f1 show ?thesis by (rule frame_trans)
    next
      case (Threw w1)
      then have "w' = w1" using "17.prems" False by simp
      then have "frame (once_id (callback entry)) ?w0 w'"
        using "17.IH"(1)[OF False, of w1] Threw wf0 by simp
      then show ?thesis using sub np by (rule frame_called)
    qed (use "17.prems" False in simp_all)
  qed
next
  case (18 n ip t m w)
  show ?case
  proof (cases "map_of (listenersByType (disp w)) t")
    case None
    then show ?thesis using 18 by (simp add: frame_refl)
  next
    case (Some b)
    have "\<forall>e\<in>set b. once_ok e"
      using bucket_entries[OF Some] "18.prems"(2) by (auto simp: wf_registry_def)
    then show ?thesis using 18 Some by simp
  qed
next
  case (19 i w)
  then show ?case by simp
next
  case (20 n i w)
  show ?case
  proof (cases "i < length (queuedDispatches (disp w))")
    case False
    then show ?thesis using 20 by (simp add: frame_refl)
  next
    case True
    obtain t m where tm: "queuedDispatches (disp w) ! i = (t, m)" by force
    let ?w0 = "log_event (Delivered t m) w"
    have wf0: "wf_registry (disp ?w0)" using "20.prems" by simp
    have st: "frame {} w w1" if "frame {} ?w0 w1" for w1
      by (rule frame_step[OF that, where ev = "[Delivered t m]"]) simp_all
    show ?thesis
    proof (cases "dispatch n True t m ?w0")
      case (Ok x)
      obtain w1 c1 where x: "x = (w1, c1)" by force
      have "frame {} ?w0 w1"
        using "20.IH"(1)[OF True tm[symmetric], of w1 c1] Ok x wf0 by simp
      then have f1: "frame {} w w1" by (rule st)
      have wf1: "wf_registry (disp w1)"
        using wf_kept(4)[of n True t m ?w0 w1 c1] Ok x wf0 by simp
      have "frame {} w1 w'"
        using "20.IH"(2)[OF True tm[symmetric] Ok x[symmetric]] "20.prems" True tm Ok x wf1
        by simp
      with f1 show ?thesis by (rule frame_trans)
    next
      case (Threw x)
      obtain w1 c1 where x: "x = (w1, c1)" by force
      then have "w' = w1" using "20.prems" True tm Threw by simp
      then have "frame {} ?w0 w'"
        using "20.IH"(1)[OF True tm[symmetric], of w1 c1] Threw x wf0 by simp
      then show ?thesis by (rule st)
    qed (use "20.prems" True tm in simp_all)
  qed
next
  case (21 n w)
  show ?case
  proof (cases "process_loop n 0 w")
    case (Ok w1)
    then have w': "w' = w1\<lparr>disp := (disp w1)\<lparr>queuedDispatches := []\<rparr>\<rparr>" using "21.prems" by simp
    have "frame {} w w1" using "21.IH"[of w1] Ok "21.prems" by simp
    then show ?thesis unfolding w' frame_def by (simp add: pending_def)
  next
    case (Threw w1)
    then have "w' = w1" using "21.prems" by simp
    then show ?thesis using "21.IH"[of w1] Threw "21.prems" by simp
  qed (use "21.prems" in simp_all)
qed

subsection \<open>A handle that no entry has is not called\<close>





subsection \<open>The Deferred Queue\<close>


lemma enqueued_append [simp]: "enqueued (xs @ ys) = enqueued xs @ enqueued ys"
  by (induction xs rule: enqueued.induct) auto

lemma delivered_append [simp]: "delivered (xs @ ys) = delivered xs @ delivered ys"
  by (induction xs rule: delivered.induct) auto













subsection \<open>The loop of dispatch, piece by piece\<close>


subsection \<open>Listeners subscribed with listenOnce\<close>







lemma ex_world_once_reached:
  "run 4 False
     (Listen 0 (\<lambda>m. Emit 1 Return) 10
        (\<lambda>h. ListenOnce 0 (\<lambda>m. Dispatch 0 m (Emit 2 Return)) 5
          (\<lambda>h. Listen 0 (\<lambda>m. if m = 0 then Emit 3 Return else Dispatch 0 0 Return) 1
            (\<lambda>h. Return))))
     new_world = Ok ex_world_once"
  by (simp add: eval_nat_numeral new_world_def new_Dispatcher_def listen_def listenOnce_def
      addListener_def log_event_def ex_world_once_def ex_ahead_def ex_once_def ex_behind_def)




subsection \<open>The Pending-Removal Set at rest\<close>






subsection \<open>Tokens\<close>

text \<open>
  Claim C7, as the code has it. A Token made by the constructor holds the reference to
  the Dispatcher and the handle it was given, and owns the handle. Destroying a Token
  that owns its handle calls \<^verbatim>\<open>remove\<close> of the handle on the Dispatcher it refers
  to and touches no other Dispatcher; \<^verbatim>\<open>hasListener\<close> of the handle is false
  afterwards. Unless the handle is in the Pending-Removal Set, no entry has the handle
  afterwards; if it is in the set, \<^verbatim>\<open>remove\<close> does nothing and every Dispatcher is
  left as it is. The move constructor gives the new Token the reference, the handle and
  the ownership of the other one, which then owns nothing: destroying it leaves every
  Dispatcher as it is.
\<close>

theorem token_destroy_releases_move_transfers:
  "dispatcher (Token_new r h) = r \<and> Token_handle (Token_new r h) = h
   \<and> holdsResource (Token_new r h)
   \<and> Token_destroy (Token_new r h) s = s(r := remove (s r) h)
   \<and> (holdsResource tok \<longrightarrow>
        Token_destroy tok s =
          s(dispatcher tok := remove (s (dispatcher tok)) (Token_handle tok))
        \<and> \<not> hasListener (Token_destroy tok s (dispatcher tok)) (Token_handle tok)
        \<and> (Token_handle tok \<notin> listenersScheduledForRemoval (s (dispatcher tok)) \<longrightarrow>
             \<not> registered (Token_destroy tok s (dispatcher tok)) (Token_handle tok))
        \<and> (Token_handle tok \<in> listenersScheduledForRemoval (s (dispatcher tok)) \<longrightarrow>
             Token_destroy tok s = s))
   \<and> (case Token_move tok of
        (new, old) \<Rightarrow>
          dispatcher new = dispatcher tok \<and> Token_handle new = Token_handle tok \<and>
          holdsResource new = holdsResource tok \<and> \<not> holdsResource old \<and>
          Token_destroy old s = s)"
proof -
  have a: "\<not> registered (remove (s (dispatcher tok)) (handle' tok)) (handle' tok)"
    if "handle' tok \<notin> listenersScheduledForRemoval (s (dispatcher tok))"
    using that by (rule not_registered_remove)
  have b: "s(dispatcher tok := remove (s (dispatcher tok)) (handle' tok)) = s"
    if "handle' tok \<in> listenersScheduledForRemoval (s (dispatcher tok))"
    using that by (simp add: remove_def)
  show ?thesis
    using a b
    by (simp add: Token_new_def Token_destroy_def Token_move_def Token_handle_def
        not_hasListener_remove)
qed

theorem token_destroy_releases_move_transfers_witness:
  "holdsResource (Token_new 0 0)
   \<and> hasListener (snd (listen new_Dispatcher 0 (\<lambda>m. Return) 0)) (Token_handle (Token_new 0 0))
   \<and> Token_handle (Token_new 0 0)
        \<notin> listenersScheduledForRemoval (snd (listen new_Dispatcher 0 (\<lambda>m. Return) 0))
   \<and> \<not> hasListener
        (Token_destroy (Token_new 0 0) (\<lambda>r. snd (listen new_Dispatcher 0 (\<lambda>m. Return) 0))
           (dispatcher (Token_new 0 0)))
        (Token_handle (Token_new 0 0))
   \<and> \<not> registered
        (Token_destroy (Token_new 0 0) (\<lambda>r. snd (listen new_Dispatcher 0 (\<lambda>m. Return) 0))
           (dispatcher (Token_new 0 0)))
        (Token_handle (Token_new 0 0))
   \<and> \<not> holdsResource (snd (Token_move (Token_new 0 0)))
   \<and> hasListener
        (Token_destroy (snd (Token_move (Token_new 0 0)))
           (\<lambda>r. snd (listen new_Dispatcher 0 (\<lambda>m. Return) 0)) 0) 0"
proof -
  let ?s = "\<lambda>r::nat. snd (listen new_Dispatcher 0 (\<lambda>m. Return) 0)"
  have h: "holdsResource (Token_new 0 0)" by (simp add: Token_new_def)
  have b: "hasListener (?s 0) (Token_handle (Token_new 0 0))"
    by (simp add: hasListener_def listen_def addListener_def new_Dispatcher_def
        Token_handle_def Token_new_def)
  have p: "Token_handle (Token_new 0 0) \<notin> listenersScheduledForRemoval (?s 0)"
    by (simp add: listen_def new_Dispatcher_def)
  note t = token_destroy_releases_move_transfers[where tok = "Token_new 0 0" and s = ?s
      and r = 0 and h = 0]
  from t h p
  have c: "\<not> hasListener (Token_destroy (Token_new 0 0) ?s (dispatcher (Token_new 0 0)))
          (Token_handle (Token_new 0 0))"
    "\<not> registered (Token_destroy (Token_new 0 0) ?s (dispatcher (Token_new 0 0)))
          (Token_handle (Token_new 0 0))"
    by blast+
  note t[THEN conjunct2, THEN conjunct2, THEN conjunct2, THEN conjunct2, THEN conjunct2]
  then have "\<not> holdsResource (snd (Token_move (Token_new 0 0)))"
    "Token_destroy (snd (Token_move (Token_new 0 0))) ?s = ?s"
    by (simp_all add: case_prod_beta)
  with c have "\<not> hasListener (Token_destroy (Token_new 0 0) ?s (dispatcher (Token_new 0 0)))
          (Token_handle (Token_new 0 0))"
    "\<not> registered (Token_destroy (Token_new 0 0) ?s (dispatcher (Token_new 0 0)))
          (Token_handle (Token_new 0 0))"
    "\<not> holdsResource (snd (Token_move (Token_new 0 0)))"
    "Token_destroy (snd (Token_move (Token_new 0 0))) ?s = ?s"
    by blast+
  moreover have "hasListener (?s 0) 0" using b by (simp add: Token_handle_def Token_new_def)
  ultimately show ?thesis using h b p by simp
qed

text \<open>
  The claim as the specification states it fails for a handle that is in the
  Pending-Removal Set. After the dispatch of \<open>ex_thrower\<close> the handle 0 is in the set
  for good. A Token made for this Dispatcher and this handle owns the handle, and when it
  is destroyed the entry with the handle 0 is still in its bucket: the handle is not
  removed.
\<close>

theorem token_destroy_pending_handle_counterexample:
  "holdsResource (Token_new 0 0)
   \<and> Token_handle (Token_new 0 0) = 0
   \<and> registered
        (disp (fst (the_Ok (dispatch 6 False 0 7 (the_Ok (run 3 False ex_thrower new_world)))))) 0
   \<and> registered
        (Token_destroy (Token_new 0 0)
           (\<lambda>r. disp (fst (the_Ok (dispatch 6 False 0 7
                   (the_Ok (run 3 False ex_thrower new_world))))))
           (dispatcher (Token_new 0 0)))
        (Token_handle (Token_new 0 0))"
  by code_simp

text \<open>
  Claim C9. \<^verbatim>\<open>Token::remove\<close> does not look at \<^verbatim>\<open>holdsResource\<close>: whatever the
  flag says, the Dispatcher the Token refers to becomes \<^verbatim>\<open>remove\<close> of the stored
  handle, so \<^verbatim>\<open>hasListener\<close> of that handle is false afterwards. This holds for a
  Token that was moved from, whose handle is the one the new Token owns, and for a Token
  on which \<^verbatim>\<open>remove\<close> was called before.
\<close>

theorem token_remove_ignores_ownership:
  "snd (Token_remove tok s) (dispatcher tok) = remove (s (dispatcher tok)) (Token_handle tok)
   \<and> (case Token_move tok of
        (new, old) \<Rightarrow>
          \<not> holdsResource old \<and> Token_handle old = Token_handle new \<and>
          snd (Token_remove old s) (dispatcher new) =
            remove (s (dispatcher new)) (Token_handle new) \<and>
          \<not> hasListener (snd (Token_remove old s) (dispatcher new)) (Token_handle new))
   \<and> (case Token_remove tok s of
        (tok', s') \<Rightarrow>
          \<not> holdsResource tok' \<and>
          snd (Token_remove tok' s'') (dispatcher tok) =
            remove (s'' (dispatcher tok)) (Token_handle tok))"
  by (simp add: Token_remove_def Token_move_def Token_handle_def not_hasListener_remove)

theorem token_remove_ignores_ownership_witness:
  "holdsResource (fst (Token_move (Token_new 0 0)))
   \<and> \<not> holdsResource (snd (Token_move (Token_new 0 0)))
   \<and> hasListener (snd (listen new_Dispatcher 0 (\<lambda>m. Return) 0))
        (Token_handle (fst (Token_move (Token_new 0 0))))
   \<and> \<not> hasListener
        (snd (Token_remove (snd (Token_move (Token_new 0 0)))
               (\<lambda>r. snd (listen new_Dispatcher 0 (\<lambda>m. Return) 0))) 0)
        (Token_handle (fst (Token_move (Token_new 0 0))))"
proof -
  let ?s = "\<lambda>r::nat. snd (listen new_Dispatcher 0 (\<lambda>m. Return) 0)"
  have b: "hasListener (?s 0) (Token_handle (fst (Token_move (Token_new 0 0))))"
    by (simp add: hasListener_def listen_def addListener_def new_Dispatcher_def
        Token_handle_def Token_new_def Token_move_def)
  show ?thesis
    using token_remove_ignores_ownership[of "Token_new 0 0" ?s ?s] b
    by (simp add: Token_handle_def Token_new_def Token_move_def Token_remove_def
        split: prod.splits)
qed

subsection \<open>Handles\<close>

lemma funpow_subscribe_remove:
  "(ex_subscribe_remove ^^ n) new_Dispatcher =
     \<lparr>listenersByType = (if n = 0 then [] else [(0, [])]), queuedDispatches = [],
      listenersScheduledForRemoval = {}, nextListenerId = of_nat n\<rparr>"
proof (induction n)
  case 0
  then show ?case by (simp add: new_Dispatcher_def)
next
  case (Suc n)
  show ?case
    unfolding funpow.simps comp_def Suc
    by (simp add: ex_subscribe_remove_def listen_def addListener_def remove_def Let_def
        add.commute)
qed

text \<open>
  Claim C8, as the code has it. \<^verbatim>\<open>listen\<close> and \<^verbatim>\<open>listenOnce\<close> return
  \<^verbatim>\<open>nextListenerId\<close> and add one to it, in 64-bit arithmetic. So the handles handed
  out while a client program runs, by the client and by the listeners, for whatever
  types, are strictly increasing and pairwise distinct, and none is below the counter
  at the start, as long as the counter does not pass \<open>2^64\<close>; the handles handed out
  in the whole life of a Dispatcher are strictly increasing and distinct, whatever was
  removed meanwhile, as long as there are at most \<open>2^64\<close> of them.
\<close>

theorem handles_increase_until_wrap:
  "fst (listen d t f prio) = nextListenerId d
   \<and> nextListenerId (snd (listen d t f prio)) = nextListenerId d + 1
   \<and> fst (listenOnce d t f prio) = nextListenerId d
   \<and> nextListenerId (snd (listenOnce d t f prio)) = nextListenerId d + 1
   \<and> (run n ip p w = Ok w' \<and>
        unat (nextListenerId (disp w)) + length (issued (since w w')) \<le> 2 ^ 64 \<longrightarrow>
          sorted_wrt (<) (issued (since w w')) \<and> distinct (issued (since w w')) \<and>
          (\<forall>h\<in>set (issued (since w w')). nextListenerId (disp w) \<le> h))
   \<and> (run n0 False p0 new_world = Ok w0 \<and> length (issued (trace w0)) \<le> 2 ^ 64 \<longrightarrow>
          sorted_wrt (<) (issued (trace w0)) \<and> distinct (issued (trace w0)))"
proof -
  have a: "sorted_wrt (<) (issued (since w w')) \<and> distinct (issued (since w w')) \<and>
          (\<forall>h\<in>set (issued (since w w')). nextListenerId (disp w) \<le> h)"
    if r: "run n ip p w = Ok w'"
      and b: "unat (nextListenerId (disp w)) + length (issued (since w w')) \<le> 2 ^ 64"
    for n ip p w w'
  proof -
    let ?k = "length (issued (since w w'))"
    have e': "ended (run n ip p w) = Some w'" using r by simp
    have e: "issued (since w w') = map (\<lambda>i. nextListenerId (disp w) + of_nat i) [0..<?k]"
      using hands_out_since[OF handles_in_sequence(1)[OF e']] .
    have s: "sorted_wrt (<) (issued (since w w'))"
      using word_seq_sorted[OF b] e by simp
    have "\<forall>h\<in>set (issued (since w w')). nextListenerId (disp w) \<le> h"
      using word_seq_above[OF b] e by metis
    then show ?thesis using s sorted_less_distinct[OF s] by blast
  qed
  have c: "sorted_wrt (<) (issued (trace w0)) \<and> distinct (issued (trace w0))"
    if r: "run n0 False p0 new_world = Ok w0" and b: "length (issued (trace w0)) \<le> 2 ^ 64"
  proof -
    have s: "since new_world w0 = trace w0" by (simp add: since_def new_world_def)
    have "unat (nextListenerId (disp new_world)) = 0"
      by (simp add: new_world_def new_Dispatcher_def)
    then show ?thesis using a[OF r] b s by simp
  qed
  have l: "fst (listen d t f prio) = nextListenerId d
   \<and> nextListenerId (snd (listen d t f prio)) = nextListenerId d + 1
   \<and> fst (listenOnce d t f prio) = nextListenerId d
   \<and> nextListenerId (snd (listenOnce d t f prio)) = nextListenerId d + 1"
    by (simp add: listen_def listenOnce_def)
  show ?thesis using a[of n ip p w w'] c l by blast
qed

theorem handles_increase_until_wrap_witness:
  "is_Ok (run 4 False ex_three_listeners new_world)
   \<and> length (issued (trace (the_Ok (run 4 False ex_three_listeners new_world)))) \<le> 2 ^ 64
   \<and> issued (trace (the_Ok (run 4 False ex_three_listeners new_world))) = [0, 1, 2]
   \<and> sorted_wrt (<) (issued (trace (the_Ok (run 4 False ex_three_listeners new_world))))
   \<and> distinct (issued (trace (the_Ok (run 4 False ex_three_listeners new_world))))"
proof -
  let ?w = "the_Ok (run 4 False ex_three_listeners new_world)"
  have r: "is_Ok (run 4 False ex_three_listeners new_world)" by code_simp
  then have r': "run 4 False ex_three_listeners new_world = Ok ?w" by simp
  have i: "issued (trace ?w) = [0, 1, 2]" by code_simp
  then have l: "length (issued (trace ?w)) \<le> 2 ^ 64" by simp
  from handles_increase_until_wrap[of _ _ _ _ _ _ _ _ _ 4 ex_three_listeners ?w] r' l
  have "sorted_wrt (<) (issued (trace ?w)) \<and> distinct (issued (trace ?w))" by blast
  with r l i show ?thesis by blast
qed

text \<open>
  The claim as the specification states it fails when the counter wraps around. A
  client subscribes a listener and removes it again at once, over and over, so that the
  registry never holds more than one entry. The first call of \<^verbatim>\<open>listen\<close> on the new
  Dispatcher returns the handle 0; after \<open>2^64 - 1\<close> rounds the next call returns the
  largest handle, and after one more round, with the registry empty, the call returns 0
  again, which is neither larger nor new.
\<close>

theorem handles_wrap_around_counterexample:
  "fst (listen new_Dispatcher 0 ex_idle 0) = 0
   \<and> entries ((ex_subscribe_remove ^^ (2 ^ 64 - 1)) new_Dispatcher) = []
   \<and> fst (listen ((ex_subscribe_remove ^^ (2 ^ 64 - 1)) new_Dispatcher) 0 ex_idle 0) = - 1
   \<and> entries ((ex_subscribe_remove ^^ (2 ^ 64)) new_Dispatcher) = []
   \<and> fst (listen ((ex_subscribe_remove ^^ (2 ^ 64)) new_Dispatcher) 0 ex_idle 0) = 0
   \<and> \<not> fst (listen ((ex_subscribe_remove ^^ (2 ^ 64 - 1)) new_Dispatcher) 0 ex_idle 0)
        < fst (listen ((ex_subscribe_remove ^^ (2 ^ 64)) new_Dispatcher) 0 ex_idle 0)"
proof -
  have a: "fst (listen new_Dispatcher 0 ex_idle 0) = 0"
    by (simp add: listen_def new_Dispatcher_def)
  have "(of_nat (2 ^ 64 - 1) :: 64 word) = - 1" by simp
  then have b: "fst (listen ((ex_subscribe_remove ^^ (2 ^ 64 - 1)) new_Dispatcher) 0 ex_idle 0) = - 1"
    by (simp only: listen_def addListener_fields funpow_subscribe_remove) simp
  have "(of_nat (2 ^ 64) :: 64 word) = 0" by simp
  then have c: "fst (listen ((ex_subscribe_remove ^^ (2 ^ 64)) new_Dispatcher) 0 ex_idle 0) = 0"
    by (simp only: listen_def addListener_fields funpow_subscribe_remove) simp
  have d: "entries ((ex_subscribe_remove ^^ (2 ^ 64 - 1)) new_Dispatcher) = []"
    "entries ((ex_subscribe_remove ^^ (2 ^ 64)) new_Dispatcher) = []"
    by (simp_all only: funpow_subscribe_remove) (simp_all add: entries_def)
  show ?thesis unfolding a b c d by simp
qed

subsection \<open>A dispatch pass calls its snapshot\<close>

lemma loop_called_subset:
  "ended (dispatch_loop n ip es m w) = Some (w', called) \<Longrightarrow> set called \<subseteq> set es"
proof (induction es arbitrary: w called)
  case Nil
  then show ?case by simp
next
  case (Cons entry rest)
  show ?case
  proof (cases "handle entry \<in> listenersScheduledForRemoval (disp w)")
    case True
    then show ?thesis using Cons by auto
  next
    case False
    let ?w0 = "log_event (Called (handle entry) m) w"
    show ?thesis
    proof (cases "invoke n ip (callback entry) m ?w0")
      case (Ok w1)
      have "ended (dispatch_loop n ip rest m w1) = Some (w', tl called) \<and> hd called = entry
              \<and> called \<noteq> []"
        using Cons.prems False Ok by (auto split: result.splits)
      then show ?thesis using Cons.IH[of w1 "tl called"]
        by (cases called) auto
    next
      case (Threw w1)
      then show ?thesis using Cons.prems False by auto
    qed (use Cons.prems False in simp_all)
  qed
qed

lemma loop_called_sorted:
  "ended (dispatch_loop n ip es m w) = Some (w', called) \<Longrightarrow> sorted_wrt ord es \<Longrightarrow>
   sorted_wrt ord called"
proof (induction es arbitrary: w called)
  case Nil
  then show ?case by simp
next
  case (Cons entry rest)
  show ?case
  proof (cases "handle entry \<in> listenersScheduledForRemoval (disp w)")
    case True
    then show ?thesis using Cons by auto
  next
    case False
    let ?w0 = "log_event (Called (handle entry) m) w"
    show ?thesis
    proof (cases "invoke n ip (callback entry) m ?w0")
      case (Ok w1)
      have l: "ended (dispatch_loop n ip rest m w1) = Some (w', tl called)"
        and c: "called = entry # tl called"
        using Cons.prems False Ok by (auto split: result.splits)
      have "set (tl called) \<subseteq> set rest" using l by (rule loop_called_subset)
      moreover have "sorted_wrt ord (tl called)" using Cons.IH[OF l] Cons.prems(2) by simp
      ultimately have "sorted_wrt ord (entry # tl called)" using Cons.prems(2) by auto
      then show ?thesis using c by simp
    next
      case (Threw w1)
      then show ?thesis using Cons.prems False by auto
    qed (use Cons.prems False in simp_all)
  qed
qed






subsection \<open>Snapshot semantics of dispatch\<close>



lemma ex_world_remover_reached:
  "run 3 False
     (ListenOnce 0 (\<lambda>m. Emit 1 (Remove 1 (Listen 0 (\<lambda>m. Emit 3 Return) 7 (\<lambda>h. Return)))) 10
        (\<lambda>h1. Listen 0 (\<lambda>m. Emit 2 Return) 5 (\<lambda>h2. Return)))
     new_world = Ok ex_world_remover"
  by (simp add: eval_nat_numeral new_world_def new_Dispatcher_def listen_def listenOnce_def
      addListener_def log_event_def ex_world_remover_def ex_remover_def ex_removed_def)


end
